theory Spec2Isabelle
  imports Main "HOL-Library.Word" "HOL-Library.Char_ord" "HOL-Library.List_Lexorder"
    "HOL-Library.AList"
begin

unbundle bit_operations_syntax

section \<open>Bytes, 32-bit words and CryptoJS word arrays\<close>

text \<open>
  \<^verbatim>\<open>multiParty.js\<close> moves data between two representations: \<^verbatim>\<open>Uint8Array\<close> (NaCl) and the
  CryptoJS \<^verbatim>\<open>WordArray\<close>, an array \<^verbatim>\<open>words\<close> of signed 32-bit integers together with a count
  \<^verbatim>\<open>sigBytes\<close> of significant bytes, big-endian inside each word. JavaScript's bitwise
  operators work on the 32-bit pattern, so a word is a \<open>32 word\<close> here.
\<close>

type_synonym byte = "8 word"
type_synonym int32 = "32 word"
type_synonym Uint8Array = "byte list"

record WordArray =
  words :: "int32 list"
  sigBytes :: nat

text \<open>\<^verbatim>\<open>CryptoJS.lib.WordArray.create(words)\<close>: without a second argument, \<^verbatim>\<open>sigBytes\<close> is
  four times the number of words.\<close>

definition WordArray_create :: "int32 list \<Rightarrow> WordArray" where
  "WordArray_create ws = \<lparr>words = ws, sigBytes = length ws * 4\<rparr>"

text \<open>\<^verbatim>\<open>CryptoJS.lib.WordArray.create(words, sigBytes)\<close>.\<close>

definition WordArray_create_sig :: "int32 list \<Rightarrow> nat \<Rightarrow> WordArray" where
  "WordArray_create_sig ws n = \<lparr>words = ws, sigBytes = n\<rparr>"

text \<open>Reading \<^verbatim>\<open>words[k]\<close> inside a bitwise expression: an index past the end reads
  \<^verbatim>\<open>undefined\<close>, which the bitwise operators take as 0.\<close>

definition word_at :: "int32 list \<Rightarrow> nat \<Rightarrow> int32" where
  "word_at ws k = (if k < length ws then ws ! k else 0)"

text \<open>The \<open>i\<close>-th byte of a word array, CryptoJS's
  \<^verbatim>\<open>(words[i >>> 2] >>> (24 - (i % 4) * 8)) & 0xff\<close>.\<close>

definition byte_at :: "int32 list \<Rightarrow> nat \<Rightarrow> byte" where
  "byte_at ws i = ucast (drop_bit (24 - (i mod 4) * 8) (word_at ws (i div 4)))"

text \<open>The significant bytes of a word array: what every CryptoJS consumer used by the
  program (hashing, HMAC, the cipher, Base64 and UTF-8 output, \<^verbatim>\<open>concat\<close>) reads.\<close>

definition wa_bytes :: "WordArray \<Rightarrow> byte list" where
  "wa_bytes wa = map (byte_at (words wa)) [0..<sigBytes wa]"

text \<open>\<^verbatim>\<open>wa[k] |= v\<close> on a JavaScript array: an index at or past the end extends the array
  (the skipped slots are holes, which read as 0 in bitwise expressions).\<close>

definition or_assign :: "int32 list \<Rightarrow> nat \<Rightarrow> int32 \<Rightarrow> int32 list" where
  "or_assign wa k v =
     (if k < length wa then wa[k := (wa ! k) OR v]
      else wa @ replicate (k - length wa) 0 @ [v])"

text \<open>How CryptoJS itself packs bytes into a fresh word array (its \<^verbatim>\<open>Latin1.parse\<close>,
  \<^verbatim>\<open>Base64.parse\<close> and \<^verbatim>\<open>random\<close> all build \<^verbatim>\<open>words\<close> by
  \<^verbatim>\<open>words[i >>> 2] |= b << (24 - (i % 4) * 8)\<close>): the unused low bytes of the last word
  are zero and there are \<open>\<lceil>n / 4\<rceil>\<close> words.\<close>

definition put_byte :: "nat \<Rightarrow> byte \<Rightarrow> int32 list \<Rightarrow> int32 list" where
  "put_byte i b ws = or_assign ws (i div 4) (push_bit (24 - (i mod 4) * 8) (ucast b))"

definition pack_words :: "byte list \<Rightarrow> nat \<Rightarrow> int32 list" where
  "pack_words bs n = fold (\<lambda>i ws. put_byte i (bs ! i) ws) [0..<n] []"

definition bytes_wa :: "byte list \<Rightarrow> WordArray" where
  "bytes_wa bs = WordArray_create_sig (pack_words bs (length bs)) (length bs)"

text \<open>\<^verbatim>\<open>a.concat(b)\<close> appends the significant bytes of \<^verbatim>\<open>b\<close> to those of \<^verbatim>\<open>a\<close> (it clamps
  \<^verbatim>\<open>a\<close> first). The library is not part of the repository; it is modelled by this effect.\<close>

definition wa_concat :: "WordArray \<Rightarrow> WordArray \<Rightarrow> WordArray" where
  "wa_concat a b = bytes_wa (wa_bytes a @ wa_bytes b)"

subsection \<open>The two conversion functions of the source (lines 229-250)\<close>

text \<open>JavaScript's \<^verbatim>\<open>x << n\<close> uses the shift count modulo 32 (also for a negative count), and
  \<^verbatim>\<open>x >> n\<close> is the arithmetic shift.\<close>

definition js_shl :: "int32 \<Rightarrow> int \<Rightarrow> int32" where
  "js_shl x n = push_bit (nat (n mod 32)) x"

definition js_sar :: "int32 \<Rightarrow> nat \<Rightarrow> int32" where
  "js_sar x n = signed_drop_bit (n mod 32) x"

text \<open>
  \<^verbatim>\<open>
  Uint8Array.prototype.toWordArray = function () {
      var wa = [], i;
      for (i = 0; i < this.length; i++) {
          wa[(i / 4) | 0] |= this[i] << (24 - 8 * i);
      }
      return CryptoJS.lib.WordArray.create(wa, this.length);
  };\<close>
  The shift count is \<open>24 - 8 i\<close>, not \<open>24 - 8 (i mod 4)\<close>: it is negative from \<open>i = 4\<close> on.
\<close>

definition toWordArray :: "Uint8Array \<Rightarrow> WordArray" where
  "toWordArray this =
     WordArray_create_sig
       (fold (\<lambda>i wa. or_assign wa (i div 4) (js_shl (ucast (this ! i)) (24 - 8 * int i)))
          [0..<length this] [])
       (length this)"

text \<open>
  \<^verbatim>\<open>
  Uint8Array.fromWordArray = function (wordArray) {
      var len = wordArray.words.length, u8_array = new Uint8Array(len << 2), offset = 0, word, i;
      for (i = 0; i < len; i++) {
          word = wordArray.words[i];
          u8_array[offset++] = word >> 24;
          u8_array[offset++] = (word >> 16) & 0xff;
          u8_array[offset++] = (word >> 8) & 0xff;
          u8_array[offset++] = word & 0xff;
      }
      return u8_array;
  };\<close>
  The length of the result comes from \<^verbatim>\<open>words.length\<close>, not from \<^verbatim>\<open>sigBytes\<close>; a store into
  a \<^verbatim>\<open>Uint8Array\<close> keeps the low 8 bits.
\<close>

definition word_bytes :: "int32 \<Rightarrow> byte list" where
  "word_bytes word =
     [ucast (js_sar word 24), ucast (js_sar word 16 AND 0xff),
      ucast (js_sar word 8 AND 0xff), ucast (word AND 0xff)]"

definition fromWordArray :: "WordArray \<Rightarrow> Uint8Array" where
  "fromWordArray wordArray = concat (map word_bytes (words wordArray))"

section \<open>The primitives the program calls\<close>

text \<open>
  NaCl, CryptoJS, the browser's random source and \<^verbatim>\<open>String.prototype.localeCompare\<close> are not
  part of the repository. They are parameters of the model, at the level of bytes; \<open>'g\<close> is the
  state of the random generator. \<open>aes_encrypt\<close> is
  \<^verbatim>\<open>CryptoJS.AES.encrypt(msg, key, {mode: CTR, iv, padding: NoPadding}).toString()\<close>, which
  yields a Base64 string, and \<open>aes_decrypt\<close> is \<^verbatim>\<open>CryptoJS.AES.decrypt\<close> on such a string.
  \<open>utf8_stringify\<close> is \<open>None\<close> where CryptoJS throws \<^verbatim>\<open>Malformed UTF-8 data\<close>.
\<close>

record 'g prims =
  random_bytes :: "nat \<Rightarrow> 'g \<Rightarrow> byte list \<times> 'g"
  base64_stringify :: "byte list \<Rightarrow> string"
  base64_parse :: "string \<Rightarrow> byte list"
  utf8_parse :: "string \<Rightarrow> byte list"
  utf8_stringify :: "byte list \<Rightarrow> string option"
  sha512 :: "byte list \<Rightarrow> byte list"
  hmac_sha512 :: "byte list \<Rightarrow> byte list \<Rightarrow> byte list"
  aes_encrypt :: "byte list \<Rightarrow> byte list \<Rightarrow> byte list \<Rightarrow> string"
  aes_decrypt :: "string \<Rightarrow> byte list \<Rightarrow> byte list \<Rightarrow> byte list"
  scalarMult :: "Uint8Array \<Rightarrow> Uint8Array \<Rightarrow> Uint8Array"
  scalarMult_base :: "Uint8Array \<Rightarrow> Uint8Array"
  localeCompare :: "string \<Rightarrow> string \<Rightarrow> int"

definition WordArray_random :: "'g prims \<Rightarrow> nat \<Rightarrow> 'g \<Rightarrow> WordArray \<times> 'g" where
  "WordArray_random p n g = (case random_bytes p n g of (bs, g') \<Rightarrow> (bytes_wa bs, g'))"

definition Base64_stringify :: "'g prims \<Rightarrow> WordArray \<Rightarrow> string" where
  "Base64_stringify p wa = base64_stringify p (wa_bytes wa)"

definition Base64_parse :: "'g prims \<Rightarrow> string \<Rightarrow> WordArray" where
  "Base64_parse p s = bytes_wa (base64_parse p s)"

definition Utf8_parse :: "'g prims \<Rightarrow> string \<Rightarrow> WordArray" where
  "Utf8_parse p s = bytes_wa (utf8_parse p s)"

definition SHA512 :: "'g prims \<Rightarrow> WordArray \<Rightarrow> WordArray" where
  "SHA512 p m = bytes_wa (sha512 p (wa_bytes m))"

section \<open>Key agreement (lines 11-37)\<close>

record publicKey =
  raw :: Uint8Array
  encoded :: string

definition publicKeyFromPrivate :: "'g prims \<Rightarrow> Uint8Array \<Rightarrow> publicKey" where
  "publicKeyFromPrivate p privateKey =
     (let publicKey = scalarMult_base p privateKey
      in \<lparr>raw = publicKey, encoded = Base64_stringify p (toWordArray publicKey)\<rparr>)"

definition parsePublicKey :: "'g prims \<Rightarrow> string \<Rightarrow> Uint8Array" where
  "parsePublicKey p encodedPublicKey = fromWordArray (Base64_parse p encodedPublicKey)"

text \<open>\<^verbatim>\<open>words.slice(a, b)\<close> for \<open>0 \<le> a \<le> b\<close>.\<close>

definition slice :: "nat \<Rightarrow> nat \<Rightarrow> 'a list \<Rightarrow> 'a list" where
  "slice a b xs = take (b - a) (drop a xs)"

record secret =
  secret_message :: WordArray
  secret_hmac :: WordArray

text \<open>
  \<^verbatim>\<open>
  function sharedSecret(myPrivateKey, theirPublicKey) {
      let secret = CryptoJS.SHA512(nacl.scalarMult(myPrivateKey, theirPublicKey).toWordArray());
      return {
          message: CryptoJS.lib.WordArray.create(secret.words.slice(0, 8)),
          hmac: CryptoJS.lib.WordArray.create(secret.words.slice(8, 16))
      };
  }\<close>
\<close>

definition sharedSecret :: "'g prims \<Rightarrow> Uint8Array \<Rightarrow> Uint8Array \<Rightarrow> secret" where
  "sharedSecret p myPrivateKey theirPublicKey =
     (let secret = SHA512 p (toWordArray (scalarMult p myPrivateKey theirPublicKey))
      in \<lparr>secret_message = WordArray_create (slice 0 8 (words secret)),
          secret_hmac = WordArray_create (slice 8 16 (words secret))\<rparr>)"

section \<open>The cipher, the MAC and the tag (lines 164-224)\<close>

text \<open>
  \<^verbatim>\<open>
  function correctIvLength(iv) {
      var ivAsWordArray = CryptoJS.enc.Base64.parse(iv);
      var ivAsArray = ivAsWordArray.words;
      ivAsArray.push(0);
      return CryptoJS.lib.WordArray.create(ivAsArray);
  }\<close>
\<close>

definition correctIvLength :: "'g prims \<Rightarrow> string \<Rightarrow> WordArray" where
  "correctIvLength p iv =
     (let ivAsWordArray = Base64_parse p iv;
          ivAsArray = words ivAsWordArray @ [0]
      in WordArray_create ivAsArray)"

definition encryptAES :: "'g prims \<Rightarrow> WordArray \<Rightarrow> WordArray \<Rightarrow> string \<Rightarrow> string" where
  "encryptAES p msg c iv =
     aes_encrypt p (wa_bytes msg) (wa_bytes c) (wa_bytes (correctIvLength p iv))"

definition decryptAES :: "'g prims \<Rightarrow> string \<Rightarrow> WordArray \<Rightarrow> string \<Rightarrow> WordArray" where
  "decryptAES p msg c iv =
     bytes_wa (aes_decrypt p msg (wa_bytes c) (wa_bytes (correctIvLength p iv)))"

definition HMAC :: "'g prims \<Rightarrow> WordArray \<Rightarrow> WordArray \<Rightarrow> string" where
  "HMAC p msg key = base64_stringify p (hmac_sha512 p (wa_bytes msg) (wa_bytes key))"

definition createMessageTag :: "'g prims \<Rightarrow> WordArray \<Rightarrow> string" where
  "createMessageTag p message = Base64_stringify p ((SHA512 p ^^ 8) message)"

section \<open>The envelope, the buddies and the IV registry\<close>

text \<open>
  An entry of \<^verbatim>\<open>encrypted.text\<close>. \<^verbatim>\<open>encrypt\<close> creates it with \<^verbatim>\<open>message\<close> and \<^verbatim>\<open>iv\<close> and sets
  \<^verbatim>\<open>hmac\<close> in a second loop, so \<open>hmac\<close> is optional (\<open>None\<close>: the property is absent).
  The object \<^verbatim>\<open>text\<close> is an association list in insertion order; identity labels are taken
  to be ordinary property names (not names that \<^verbatim>\<open>Object.prototype\<close> defines).
\<close>

record entry =
  message :: string
  iv :: string
  hmac :: "string option"

type_synonym text_obj = "(string \<times> entry) list"

record envelope =
  msg_type :: string
  msg_text :: text_obj
  tag :: string

text \<open>A buddy (and a recipient): \<^verbatim>\<open>nickname\<close> and \<^verbatim>\<open>mpSecretKey\<close>, which is unset until the
  buddy's public key is known.\<close>

record buddy =
  nickname :: string
  mpSecretKey :: "secret option"

text \<open>\<^verbatim>\<open>const usedIVs = []\<close>: the registry, a list of Base64 strings that only grows.\<close>

type_synonym usedIVs = "string list"

section \<open>Sorting\<close>

text \<open>\<^verbatim>\<open>Array.prototype.sort(compareFn)\<close> is stable; with a consistent comparator every stable
  sort returns the same list. It is modelled as insertion sort: an element goes before the
  first later element that does not compare below it.\<close>

fun insert_by :: "('a \<Rightarrow> 'a \<Rightarrow> int) \<Rightarrow> 'a \<Rightarrow> 'a list \<Rightarrow> 'a list" where
  "insert_by cmp x [] = [x]"
| "insert_by cmp x (y # ys) = (if cmp x y \<le> 0 then x # y # ys else y # insert_by cmp x ys)"

definition js_sort_by :: "('a \<Rightarrow> 'a \<Rightarrow> int) \<Rightarrow> 'a list \<Rightarrow> 'a list" where
  "js_sort_by cmp xs = foldr (insert_by cmp) xs []"

text \<open>
  \<^verbatim>\<open>
  const sortedRecipients = [];
  for (let r of recipients) { if (r.mpSecretKey) { sortedRecipients.push(r); } }
  sortedRecipients.sort((a, b) => a.nickname.localeCompare(b.nickname));\<close>
  A recipient that passes the filter is kept as its nickname and its key, the two fields
  the loops read.
\<close>

definition resolved :: "buddy list \<Rightarrow> (string \<times> secret) list" where
  "resolved recipients =
     List.map_filter (\<lambda>r. case mpSecretKey r of None \<Rightarrow> None | Some k \<Rightarrow> Some (nickname r, k))
       recipients"

definition sortedRecipients_encrypt :: "'g prims \<Rightarrow> buddy list \<Rightarrow> (string \<times> secret) list" where
  "sortedRecipients_encrypt p recipients =
     js_sort_by (\<lambda>a b. localeCompare p (fst a) (fst b)) (resolved recipients)"

text \<open>\<^verbatim>\<open>Object.keys(encrypted).sort()\<close>: the default sort, by UTF-16 code units.\<close>

definition sortedRecipients_decrypt :: "text_obj \<Rightarrow> string list" where
  "sortedRecipients_decrypt encrypted = sort (map fst encrypted)"

section \<open>Encryption (lines 39-99)\<close>

text \<open>
  \<^verbatim>\<open>
  let iv = CryptoJS.enc.Base64.stringify(CryptoJS.lib.WordArray.random(12));
  while (usedIVs.indexOf(iv) >= 0) {
      iv = CryptoJS.enc.Base64.stringify(CryptoJS.lib.WordArray.random(12));
  }\<close>
  The loop ends only when the generator yields an unused IV: \<open>None\<close> is the run that never
  leaves it.
\<close>

partial_function (option) newIV :: "'g prims \<Rightarrow> usedIVs \<Rightarrow> 'g \<Rightarrow> (string \<times> 'g) option" where
  "newIV p used g =
     (case WordArray_random p 12 g of
        (r, g') \<Rightarrow>
          if Base64_stringify p r \<in> set used then newIV p used g'
          else Some (Base64_stringify p r, g'))"

declare newIV.simps [code]

text \<open>The first loop over \<^verbatim>\<open>sortedRecipients\<close> (lines 61-83); its state is
  \<^verbatim>\<open>encrypted.text\<close>, \<^verbatim>\<open>hmacInput\<close>, \<^verbatim>\<open>usedIVs\<close> and the generator.\<close>

fun encrypt_entries ::
  "'g prims \<Rightarrow> WordArray \<Rightarrow> (string \<times> secret) list \<Rightarrow>
   text_obj \<times> WordArray \<times> usedIVs \<times> 'g \<Rightarrow> (text_obj \<times> WordArray \<times> usedIVs \<times> 'g) option" where
  "encrypt_entries p plaintext [] st = Some st"
| "encrypt_entries p plaintext ((name, key) # rs) (txt, hmacInput, used, g) =
     (case newIV p used g of
        None \<Rightarrow> None
      | Some (iv_new, g') \<Rightarrow>
          let e = \<lparr>message = encryptAES p plaintext (secret_message key) iv_new,
                   iv = iv_new, hmac = None\<rparr>;
              hmacInput' = wa_concat (wa_concat hmacInput (Base64_parse p (message e)))
                             (Base64_parse p (iv e))
          in encrypt_entries p plaintext rs
               (AList.update name e txt, hmacInput', used @ [iv_new], g'))"

text \<open>The second loop (lines 86-95); its state is \<^verbatim>\<open>encrypted.text\<close> and \<^verbatim>\<open>tag\<close>.\<close>

fun encrypt_hmacs ::
  "'g prims \<Rightarrow> WordArray \<Rightarrow> (string \<times> secret) list \<Rightarrow> text_obj \<times> WordArray \<Rightarrow>
   text_obj \<times> WordArray" where
  "encrypt_hmacs p hmacInput [] st = st"
| "encrypt_hmacs p hmacInput ((name, key) # rs) (txt, tg) =
     (let h = HMAC p hmacInput (secret_hmac key)
      in encrypt_hmacs p hmacInput rs
           (AList.map_entry name (\<lambda>e. e\<lparr>hmac := Some h\<rparr>) txt, wa_concat tg (Base64_parse p h)))"

definition encrypt ::
  "'g prims \<Rightarrow> string \<Rightarrow> buddy list \<Rightarrow> usedIVs \<Rightarrow> 'g \<Rightarrow> (envelope \<times> usedIVs \<times> 'g) option" where
  "encrypt p plaintext recipients used g =
     (case WordArray_random p 64 g of
        (padding, g1) \<Rightarrow>
          let padded = wa_concat (Utf8_parse p plaintext) padding;
              sortedRecipients = sortedRecipients_encrypt p recipients
          in (case encrypt_entries p padded sortedRecipients ([], WordArray_create [], used, g1) of
                None \<Rightarrow> None
              | Some (txt, hmacInput, used', g2) \<Rightarrow>
                  (case encrypt_hmacs p hmacInput sortedRecipients (txt, padded) of
                     (txt', tg) \<Rightarrow>
                       Some (\<lparr>msg_type = ''message'', msg_text = txt',
                               tag = createMessageTag p tg\<rparr>, used', g2))))"

section \<open>Decryption (lines 101-162)\<close>

text \<open>What \<^verbatim>\<open>decrypt\<close> throws: six strings, each naming the sender. \<open>TypeError\<close> is the
  JavaScript exception raised when an entry of a crafted envelope has no \<^verbatim>\<open>hmac\<close>.\<close>

datatype error =
  NotAddressedToMe string
  | MissingSenderKey string
  | AuthenticationFailure string
  | ReplayDetected string
  | InvalidPlaintextSize string
  | TagFailure string
  | TypeError

fun error_message :: "error \<Rightarrow> string" where
  "error_message (NotAddressedToMe s) = ''Message from '' @ s @ '' is not encrypted for me''"
| "error_message (MissingSenderKey s) = ''Missing public key for '' @ s"
| "error_message (AuthenticationFailure s) = ''HMAC failure for message from '' @ s"
| "error_message (ReplayDetected s) = ''IV reuse in message from '' @ s @ ''; possible replay attack''"
| "error_message (InvalidPlaintextSize s) = ''Invalid plaintext size for message from '' @ s"
| "error_message (TagFailure s) = ''Tag failure for message from '' @ s"
| "error_message TypeError = ''TypeError''"

text \<open>What \<^verbatim>\<open>decrypt\<close> returns: the object \<^verbatim>\<open>{ plaintext, missingRecipients }\<close> of line 161, or
  the bare string of line 158.\<close>

datatype returned =
  ReturnedObject string "string list"
  | ReturnedString string

text \<open>The two loops over \<^verbatim>\<open>sortedRecipients\<close> (lines 119-122 and 147-149). Every name comes
  from \<^verbatim>\<open>Object.keys(encrypted)\<close>, so \<^verbatim>\<open>encrypted[r]\<close> is always found.\<close>

fun hmacInput_decrypt :: "'g prims \<Rightarrow> text_obj \<Rightarrow> string list \<Rightarrow> WordArray \<Rightarrow> WordArray" where
  "hmacInput_decrypt p encrypted [] hmacInput = hmacInput"
| "hmacInput_decrypt p encrypted (r # rs) hmacInput =
     (case map_of encrypted r of
        None \<Rightarrow> hmacInput_decrypt p encrypted rs hmacInput
      | Some e \<Rightarrow>
          hmacInput_decrypt p encrypted rs
            (wa_concat (wa_concat hmacInput (Base64_parse p (message e))) (Base64_parse p (iv e))))"

fun messageTag_decrypt ::
  "'g prims \<Rightarrow> text_obj \<Rightarrow> string list \<Rightarrow> WordArray \<Rightarrow> WordArray option" where
  "messageTag_decrypt p encrypted [] messageTag = Some messageTag"
| "messageTag_decrypt p encrypted (r # rs) messageTag =
     (case map_of encrypted r of
        None \<Rightarrow> messageTag_decrypt p encrypted rs messageTag
      | Some e \<Rightarrow>
          (case hmac e of
             None \<Rightarrow> None
           | Some h \<Rightarrow>
               messageTag_decrypt p encrypted rs (wa_concat messageTag (Base64_parse p h))))"

text \<open>
  \<^verbatim>\<open>decrypt(message, sender)\<close> reads \<^verbatim>\<open>Cryptodog.me.nickname\<close> and \<^verbatim>\<open>Cryptodog.buddies\<close>: they
  are the arguments \<open>myName\<close> and \<open>possibleRecipients\<close> (\<^verbatim>\<open>Object.keys(Cryptodog.buddies)\<close>).
  The registry is passed in and returned, also when the call throws.
  \<^verbatim>\<open>OTR.HLP.compare\<close> is string equality in constant time.
\<close>

definition decrypt ::
  "'g prims \<Rightarrow> string \<Rightarrow> string list \<Rightarrow> envelope \<Rightarrow> buddy \<Rightarrow> usedIVs \<Rightarrow>
   (error + returned) \<times> usedIVs" where
  "decrypt p myName possibleRecipients msg sender used =
     (let encrypted = msg_text msg in
      (case map_of encrypted myName of
        None \<Rightarrow> (Inl (NotAddressedToMe (nickname sender)), used)
      | Some mine \<Rightarrow>
      (case mpSecretKey sender of
        None \<Rightarrow> (Inl (MissingSenderKey (nickname sender)), used)
      | Some key \<Rightarrow>
          let missingRecipients =
                filter (\<lambda>r. r \<noteq> nickname sender \<and> r \<notin> fst ` set encrypted) possibleRecipients;
              sortedRecipients = sortedRecipients_decrypt encrypted;
              hmacInput = hmacInput_decrypt p encrypted sortedRecipients (WordArray_create [])
          in
          (case hmac mine of
            None \<Rightarrow> (Inl TypeError, used)
          | Some mac \<Rightarrow>
              if mac \<noteq> HMAC p hmacInput (secret_hmac key)
              then (Inl (AuthenticationFailure (nickname sender)), used)
              else if iv mine \<in> set used
              then (Inl (ReplayDetected (nickname sender)), used)
              else
                let used' = used @ [iv mine];
                    plaintext = decryptAES p (message mine) (secret_message key) (iv mine)
                in
                if sigBytes plaintext < 64
                then (Inl (InvalidPlaintextSize (nickname sender)), used')
                else
                  (case messageTag_decrypt p encrypted sortedRecipients plaintext of
                    None \<Rightarrow> (Inl TypeError, used')
                  | Some messageTag \<Rightarrow>
                      if createMessageTag p messageTag \<noteq> tag msg
                      then (Inl (TagFailure (nickname sender)), used')
                      else
                        let body = WordArray_create_sig (words plaintext) (sigBytes plaintext - 64)
                        in (case utf8_stringify p (wa_bytes body) of
                              None \<Rightarrow> (Inr (ReturnedString []), used')
                            | Some s \<Rightarrow> (Inr (ReturnedObject s missingRecipients), used')))))))"

section \<open>The envelope that encrypt builds\<close>

text \<open>
  The two loops of \<^verbatim>\<open>encrypt\<close> are described in closed form, for a padded plaintext, the
  sorted recipients and the IVs drawn for them: the entry of a recipient after the first loop
  and after the second, one step of \<^verbatim>\<open>hmacInput.concat\<close> and of \<^verbatim>\<open>tag.concat\<close>, and the
  envelope made of them. \<open>encrypt_char\<close> below shows that \<^verbatim>\<open>encrypt\<close> returns this envelope.
\<close>

definition new_entry :: "'g prims \<Rightarrow> WordArray \<Rightarrow> string \<times> secret \<Rightarrow> string \<Rightarrow> string \<times> entry" where
  "new_entry p plaintext r v =
     (fst r, \<lparr>message = encryptAES p plaintext (secret_message (snd r)) v, iv = v, hmac = None\<rparr>)"

definition hmacInput_step :: "'g prims \<Rightarrow> string \<times> entry \<Rightarrow> WordArray \<Rightarrow> WordArray" where
  "hmacInput_step p ne h =
     wa_concat (wa_concat h (Base64_parse p (message (snd ne)))) (Base64_parse p (iv (snd ne)))"

definition tag_step :: "'g prims \<Rightarrow> WordArray \<Rightarrow> string \<times> secret \<Rightarrow> WordArray \<Rightarrow> WordArray" where
  "tag_step p hmacInput r t =
     wa_concat t (Base64_parse p (HMAC p hmacInput (secret_hmac (snd r))))"

definition final_entry ::
  "'g prims \<Rightarrow> WordArray \<Rightarrow> WordArray \<Rightarrow> string \<times> secret \<Rightarrow> string \<Rightarrow> string \<times> entry" where
  "final_entry p plaintext hmacInput r v =
     (fst r, \<lparr>message = encryptAES p plaintext (secret_message (snd r)) v, iv = v,
             hmac = Some (HMAC p hmacInput (secret_hmac (snd r)))\<rparr>)"

definition padded_plaintext :: "'g prims \<Rightarrow> string \<Rightarrow> 'g \<Rightarrow> WordArray" where
  "padded_plaintext p s g = wa_concat (Utf8_parse p s) (fst (WordArray_random p 64 g))"

definition hmacInput_of ::
  "'g prims \<Rightarrow> WordArray \<Rightarrow> (string \<times> secret) list \<Rightarrow> string list \<Rightarrow> WordArray" where
  "hmacInput_of p pt rs ivs =
     fold (hmacInput_step p) (map2 (new_entry p pt) rs ivs) (WordArray_create [])"

definition build_envelope ::
  "'g prims \<Rightarrow> WordArray \<Rightarrow> (string \<times> secret) list \<Rightarrow> string list \<Rightarrow> envelope" where
  "build_envelope p pt rs ivs =
     \<lparr>msg_type = ''message'',
      msg_text = map2 (final_entry p pt (hmacInput_of p pt rs ivs)) rs ivs,
      tag = createMessageTag p (fold (tag_step p (hmacInput_of p pt rs ivs)) rs pt)\<rparr>"

text \<open>\<^verbatim>\<open>missingRecipients\<close> (line 113) for an envelope addressed to \<open>rs\<close>.\<close>

definition missing :: "string list \<Rightarrow> buddy \<Rightarrow> (string \<times> secret) list \<Rightarrow> string list" where
  "missing possibleRecipients sender rs =
     filter (\<lambda>r. r \<noteq> nickname sender \<and> r \<notin> fst ` set rs) possibleRecipients"

section \<open>Stand-ins for the primitives\<close>

text \<open>
  The theorems below hold for arbitrary primitives. To run the model at concrete inputs the
  primitives are instantiated with small executable stand-ins: a counter as random generator,
  one character per byte as Base64, ASCII as UTF-8, a checksum as hash and MAC, a shift
  cipher, pointwise multiplication for the curve, and a case-insensitive comparison with
  lower case first on a tie for \<^verbatim>\<open>localeCompare\<close>.
\<close>

definition demo_random :: "nat \<Rightarrow> nat \<Rightarrow> byte list \<times> nat" where
  "demo_random n g = (replicate n (of_nat g), Suc g)"

definition bytes_string :: "byte list \<Rightarrow> string" where
  "bytes_string bs = map (\<lambda>b. char_of (unat b)) bs"

definition string_bytes :: "string \<Rightarrow> byte list" where
  "string_bytes s = map (\<lambda>c. of_nat (of_char c)) s"

definition demo_utf8_stringify :: "byte list \<Rightarrow> string option" where
  "demo_utf8_stringify bs =
     (if list_all (\<lambda>b. b < 0x80) bs then Some (bytes_string bs) else None)"

definition checksum :: "byte list \<Rightarrow> byte" where
  "checksum bs = fold (+) bs 0"

definition demo_sha512 :: "byte list \<Rightarrow> byte list" where
  "demo_sha512 bs = replicate 63 1 @ [checksum bs - 63]"

definition demo_hmac :: "byte list \<Rightarrow> byte list \<Rightarrow> byte list" where
  "demo_hmac m k = demo_sha512 (k @ m)"

definition demo_aes_encrypt :: "byte list \<Rightarrow> byte list \<Rightarrow> byte list \<Rightarrow> string" where
  "demo_aes_encrypt m k c = bytes_string (map (\<lambda>b. b + checksum (k @ c)) m)"

definition demo_aes_decrypt :: "string \<Rightarrow> byte list \<Rightarrow> byte list \<Rightarrow> byte list" where
  "demo_aes_decrypt s k c = map (\<lambda>b. b - checksum (k @ c)) (string_bytes s)"

definition lower :: "char \<Rightarrow> char" where
  "lower c = (if CHR ''A'' \<le> c \<and> c \<le> CHR ''Z'' then char_of (of_char c + (32::nat)) else c)"

definition demo_localeCompare :: "string \<Rightarrow> string \<Rightarrow> int" where
  "demo_localeCompare a b =
     (if map lower a < map lower b then -1
      else if map lower b < map lower a then 1
      else if a = b then 0
      else if b < a then -1 else 1)"

definition demo :: "nat prims" where
  "demo = \<lparr>random_bytes = demo_random,
           base64_stringify = bytes_string,
           base64_parse = string_bytes,
           utf8_parse = string_bytes,
           utf8_stringify = demo_utf8_stringify,
           sha512 = demo_sha512,
           hmac_sha512 = demo_hmac,
           aes_encrypt = demo_aes_encrypt,
           aes_decrypt = demo_aes_decrypt,
           scalarMult = (\<lambda>a B. map2 (*) a B),
           scalarMult_base = map ((*) 3),
           localeCompare = demo_localeCompare\<rparr>"

definition alice_priv :: Uint8Array where
  "alice_priv = map of_nat [1..<33]"

definition bob_priv :: Uint8Array where
  "bob_priv = map of_nat [5..<37]"

definition alice_pub :: Uint8Array where
  "alice_pub = raw (publicKeyFromPrivate demo alice_priv)"

definition bob_pub :: Uint8Array where
  "bob_pub = raw (publicKeyFromPrivate demo bob_priv)"

subsection \<open>A run and crafted envelopes\<close>

text \<open>A run of the stand-ins: Alice sends \<open>''hi''\<close> to Carol and Bob.\<close>

definition carol_priv :: Uint8Array where
  "carol_priv = map of_nat [40..<72]"

definition carol_pub :: Uint8Array where
  "carol_pub = raw (publicKeyFromPrivate demo carol_priv)"

definition alice_bob_key :: secret where
  "alice_bob_key = sharedSecret demo alice_priv bob_pub"

definition alice_carol_key :: secret where
  "alice_carol_key = sharedSecret demo alice_priv carol_pub"

definition bob :: buddy where
  "bob = \<lparr>nickname = ''bob'', mpSecretKey = Some alice_bob_key\<rparr>"

definition carol :: buddy where
  "carol = \<lparr>nickname = ''carol'', mpSecretKey = Some alice_carol_key\<rparr>"

definition alice_at_bob :: buddy where
  "alice_at_bob = \<lparr>nickname = ''alice'', mpSecretKey = Some (sharedSecret demo bob_priv alice_pub)\<rparr>"

definition demo_run :: "(envelope \<times> usedIVs \<times> nat) option" where
  "demo_run = encrypt demo ''hi'' [carol, bob] [] 0"

definition demo_envelope :: envelope where
  "demo_envelope =
     (case demo_run of Some (env, used, g) \<Rightarrow> env
      | None \<Rightarrow> \<lparr>msg_type = [], msg_text = [], tag = []\<rparr>)"

definition demo_used :: usedIVs where
  "demo_used = (case demo_run of Some (env, used, g) \<Rightarrow> used | None \<Rightarrow> [])"

definition demo_gen :: nat where
  "demo_gen = (case demo_run of Some (env, used, g) \<Rightarrow> g | None \<Rightarrow> 0)"

text \<open>Crafted envelopes for Bob, built with the key he shares with Alice: one whose body is
  empty, one whose body is the byte \<open>0xFF\<close> before the padding (not a text encoding), and one
  with an empty body and a wrong MAC.\<close>

definition short_envelope :: envelope where
  "short_envelope = build_envelope demo (bytes_wa []) [(''bob'', alice_bob_key)] [''ABCDEFGHIJKL'']"

definition binary_envelope :: envelope where
  "binary_envelope =
     build_envelope demo (bytes_wa (0xFF # replicate 64 0)) [(''bob'', alice_bob_key)]
       [''ABCDEFGHIJKL'']"

definition forged_envelope :: envelope where
  "forged_envelope =
     \<lparr>msg_type = ''message'',
      msg_text = [(''bob'', \<lparr>message = [], iv = ''ABCDEFGHIJKL'', hmac = Some []\<rparr>)],
      tag = []\<rparr>"

section \<open>Tampering with an envelope\<close>

text \<open>The bytes that the MAC and the tag are computed over, for the entries of an envelope
  in the order given: every entry's ciphertext and IV, and every entry's MAC.\<close>

definition mac_bytes :: "'g prims \<Rightarrow> text_obj \<Rightarrow> byte list" where
  "mac_bytes p tx =
     concat (map (\<lambda>ne. base64_parse p (message (snd ne)) @ base64_parse p (iv (snd ne))) tx)"

definition tag_bytes :: "'g prims \<Rightarrow> text_obj \<Rightarrow> byte list" where
  "tag_bytes p tx =
     concat (map (\<lambda>ne. case hmac (snd ne) of None \<Rightarrow> [] | Some h \<Rightarrow> base64_parse p h) tx)"

text \<open>The MAC and the tag as functions of those bytes.\<close>

definition mac_of :: "'g prims \<Rightarrow> WordArray \<Rightarrow> byte list \<Rightarrow> string" where
  "mac_of p key m = base64_stringify p (hmac_sha512 p m (wa_bytes key))"

definition tag_of :: "'g prims \<Rightarrow> byte list \<Rightarrow> string" where
  "tag_of p m = createMessageTag p (bytes_wa m)"

text \<open>Tampering: the entry of \<open>x\<close> is replaced by \<open>f\<close> of it.\<close>

definition tamper :: "string \<Rightarrow> (entry \<Rightarrow> entry) \<Rightarrow> envelope \<Rightarrow> envelope" where
  "tamper x f env = env\<lparr>msg_text := AList.map_entry x f (msg_text env)\<rparr>"

definition no_collision :: "('a \<Rightarrow> 'b) \<Rightarrow> 'a \<Rightarrow> 'a \<Rightarrow> bool" where
  "no_collision f a b \<longleftrightarrow> (f a = f b \<longrightarrow> a = b)"

text \<open>A tampered copy of the envelope of the run: the first byte of the MAC of Carol's entry
  is changed.\<close>

definition carol_mac :: string where
  "carol_mac =
     (case map_of (msg_text demo_envelope) ''carol'' of
        None \<Rightarrow> []
      | Some e \<Rightarrow> (case hmac e of None \<Rightarrow> [] | Some h \<Rightarrow> h))"

definition bump_first :: "byte list \<Rightarrow> byte list" where
  "bump_first bs = (case bs of [] \<Rightarrow> [] | b # r \<Rightarrow> (b + 1) # r)"

definition tampered_mac :: string where
  "tampered_mac = bytes_string (bump_first (string_bytes carol_mac))"

definition tampered_envelope :: envelope where
  "tampered_envelope = tamper ''carol'' (\<lambda>e. e\<lparr>hmac := Some tampered_mac\<rparr>) demo_envelope"

section \<open>Bytes and words: packing and unpacking agree\<close>

lemma drop_push_byte:
  "k < 4 \<Longrightarrow> j < 4 \<Longrightarrow>
   (ucast (drop_bit (24 - j * 8) (push_bit (24 - k * 8) (ucast (b::byte)) :: int32)) :: byte) =
   (if j = k then b else 0)"
  apply (rule bit_eqI)
  apply (auto simp add: bit_simps dest: bit_imp_le_length)
  done

lemma ucast_or_byte: "(ucast ((a::int32) OR b) :: byte) = ucast a OR ucast b"
  by (simp add: bit_eq_iff bit_simps)

lemma word_at_or_assign:
  "k \<le> length ws \<Longrightarrow>
   word_at (or_assign ws k v) i = (if i = k then word_at ws i OR v else word_at ws i)"
  by (auto simp: or_assign_def word_at_def nth_append)

lemma byte_at_or_assign:
  "k \<le> length ws \<Longrightarrow>
   byte_at (or_assign ws k v) j =
     (if j div 4 = k then byte_at ws j OR ucast (drop_bit (24 - (j mod 4) * 8) v)
      else byte_at ws j)"
  by (simp add: byte_at_def word_at_or_assign ucast_or_byte)

lemma length_or_assign:
  "k \<le> length ws \<Longrightarrow> length (or_assign ws k v) = max (length ws) (Suc k)"
  by (auto simp: or_assign_def)

lemma pack_words_Suc: "pack_words bs (Suc n) = put_byte n (bs ! n) (pack_words bs n)"
  by (simp add: pack_words_def)

lemma length_pack_words: "length (pack_words bs n) = (n + 3) div 4"
proof (induction n)
  case 0
  show ?case by (simp add: pack_words_def)
next
  case (Suc n)
  have "n div 4 \<le> length (pack_words bs n)" using Suc by simp
  then show ?case
    using Suc by (simp add: pack_words_Suc put_byte_def length_or_assign)
qed

lemma byte_at_pack_words: "byte_at (pack_words bs n) j = (if j < n then bs ! j else 0)"
proof (induction n arbitrary: j)
  case 0
  show ?case by (simp add: pack_words_def byte_at_def word_at_def)
next
  case (Suc n)
  have len: "n div 4 \<le> length (pack_words bs n)" by (simp add: length_pack_words)
  have eq: "j div 4 = n div 4 \<Longrightarrow> (j mod 4 = n mod 4) = (j = n)" for j
    by (metis div_mult_mod_eq)
  show ?case
    using Suc[of j] eq[of j]
    by (auto simp add: pack_words_Suc put_byte_def byte_at_or_assign[OF len] drop_push_byte
        less_Suc_eq)
qed

lemma wa_bytes_bytes_wa [simp]: "wa_bytes (bytes_wa bs) = bs"
  by (auto intro!: nth_equalityI
      simp: wa_bytes_def bytes_wa_def WordArray_create_sig_def byte_at_pack_words)

lemma sigBytes_bytes_wa [simp]: "sigBytes (bytes_wa bs) = length bs"
  by (simp add: bytes_wa_def WordArray_create_sig_def)

lemma length_words_bytes_wa: "length (words (bytes_wa bs)) = (length bs + 3) div 4"
  by (simp add: bytes_wa_def WordArray_create_sig_def length_pack_words)

lemma byte_at_bytes_wa: "byte_at (words (bytes_wa bs)) j = (if j < length bs then bs ! j else 0)"
  by (simp add: bytes_wa_def WordArray_create_sig_def byte_at_pack_words)

lemma length_wa_bytes [simp]: "length (wa_bytes wa) = sigBytes wa"
  by (simp add: wa_bytes_def)

text \<open>The shift count \<open>24 - 8 i\<close> of \<^verbatim>\<open>toWordArray\<close>, taken modulo 32 as JavaScript does, is the
  count \<open>24 - 8 (i mod 4)\<close> that CryptoJS uses.\<close>

lemma js_shl_index: "js_shl x (24 - 8 * int i) = push_bit (24 - (i mod 4) * 8) x"
proof -
  have "i = 4 * (i div 4) + i mod 4"
    by simp
  then have "int i = int (4 * (i div 4) + i mod 4)"
    by (rule arg_cong)
  then have "int i = 4 * int (i div 4) + int (i mod 4)"
    by (simp only: of_nat_add of_nat_mult of_nat_numeral)
  then have "24 - 8 * int i = (24 - 8 * int (i mod 4)) + (- int (i div 4)) * 32"
    by simp
  then have "(24 - 8 * int i) mod 32 = (24 - 8 * int (i mod 4)) mod 32"
    by (simp only: mod_mult_self1)
  also have "\<dots> = 24 - 8 * int (i mod 4)"
  proof -
    have "i mod 4 < 4" by simp
    then have "int (i mod 4) < 4" by linarith
    then show ?thesis by (intro mod_pos_pos_trivial) linarith+
  qed
  finally have "nat ((24 - 8 * int i) mod 32) = 24 - (i mod 4) * 8"
    by simp
  then show ?thesis by (simp add: js_shl_def)
qed

lemma toWordArray_eq: "toWordArray bs = bytes_wa bs"
  by (simp add: toWordArray_def bytes_wa_def pack_words_def put_byte_def js_shl_index)

lemma word_bytes_eq:
  "word_bytes w = map (\<lambda>k. ucast (drop_bit (24 - k * 8) w)) [0, 1, 2, 3]"
proof -
  have m: "(0xff::int32) = mask 8" by (simp add: mask_eq_exp_minus_1)
  show ?thesis
    unfolding word_bytes_def js_sar_def m
    by (simp add: bit_eq_iff bit_simps)
qed

lemma byte_at_append_old: "j < 4 * length ws \<Longrightarrow> byte_at (ws @ vs) j = byte_at ws j"
  by (simp add: byte_at_def word_at_def nth_append)

lemma byte_at_append_new:
  "k < 4 \<Longrightarrow> byte_at (ws @ [w]) (4 * length ws + k) = ucast (drop_bit (24 - k * 8) w)"
  by (simp add: byte_at_def word_at_def nth_append)

lemma upt_4: "[4 * n..<4 * Suc n] = [4 * n, 4 * n + 1, 4 * n + 2, 4 * n + 3]"
  by (simp add: upt_rec)

lemma concat_word_bytes: "concat (map word_bytes ws) = map (byte_at ws) [0..<4 * length ws]"
proof (induction ws rule: rev_induct)
  case Nil
  show ?case by simp
next
  case (snoc w ws)
  have split: "[0..<4 * length (ws @ [w])] =
      [0..<4 * length ws] @ [4 * length ws..<4 * Suc (length ws)]"
    using upt_add_eq_append[of 0 "4 * length ws" 4] by (simp add: add.commute)
  have old: "map (byte_at (ws @ [w])) [0..<4 * length ws] = map (byte_at ws) [0..<4 * length ws]"
    by (rule map_cong) (simp_all add: byte_at_append_old)
  have new: "map (byte_at (ws @ [w])) [4 * length ws..<4 * Suc (length ws)] = word_bytes w"
    unfolding upt_4
    using byte_at_append_new[of 0 ws w] byte_at_append_new[of 1 ws w]
      byte_at_append_new[of 2 ws w] byte_at_append_new[of 3 ws w]
    by (simp add: word_bytes_eq)
  show ?case
    unfolding split map_append old new using snoc by simp
qed

lemma fromWordArray_bytes_wa:
  assumes "length bs mod 4 = 0"
  shows "fromWordArray (bytes_wa bs) = bs"
proof -
  have "4 * length (words (bytes_wa bs)) = length bs"
    using assms by (simp add: length_words_bytes_wa) arith
  then have "fromWordArray (bytes_wa bs) = wa_bytes (bytes_wa bs)"
    by (simp add: fromWordArray_def concat_word_bytes wa_bytes_def)
  then show ?thesis by simp
qed

lemma byte_at_take: "j < 4 * n \<Longrightarrow> byte_at (take n ws) j = byte_at ws j"
  by (simp add: byte_at_def word_at_def)

lemma byte_at_drop: "byte_at (drop n ws) j = byte_at ws (j + 4 * n)"
  by (simp add: byte_at_def word_at_def add.commute less_diff_conv)

lemma wa_bytes_create_take:
  assumes "length bs = 64"
  shows "wa_bytes (WordArray_create (slice 0 8 (words (bytes_wa bs)))) = take 32 bs"
proof -
  have len: "length (words (bytes_wa bs)) = 16"
    using assms by (simp add: length_words_bytes_wa)
  show ?thesis
    using assms len
    by (auto intro!: nth_equalityI
        simp: wa_bytes_def WordArray_create_def slice_def byte_at_take byte_at_bytes_wa)
qed

lemma wa_bytes_create_drop:
  assumes "length bs = 64"
  shows "wa_bytes (WordArray_create (slice 8 16 (words (bytes_wa bs)))) = drop 32 bs"
proof -
  have len: "length (words (bytes_wa bs)) = 16"
    using assms by (simp add: length_words_bytes_wa)
  show ?thesis
    using assms len
    by (auto intro!: nth_equalityI
        simp: wa_bytes_def WordArray_create_def slice_def byte_at_take byte_at_drop
          byte_at_bytes_wa add.commute)
qed

lemma wa_bytes_correctIvLength:
  assumes "length (base64_parse p v) = 12"
  shows "wa_bytes (correctIvLength p v) = base64_parse p v @ [0, 0, 0, 0]"
proof -
  let ?ws = "words (bytes_wa (base64_parse p v))"
  have len: "length ?ws = 3"
    using assms by (simp add: length_words_bytes_wa)
  have split: "[0..<16] = [0..<4 * length ?ws] @ [4 * length ?ws..<4 * Suc (length ?ws)]"
    using upt_add_eq_append[of 0 12 4] by (simp add: len)
  have old: "map (byte_at (?ws @ [0])) [0..<4 * length ?ws] = base64_parse p v"
  proof -
    have "map (byte_at (?ws @ [0])) [0..<4 * length ?ws] = map (byte_at ?ws) [0..<4 * length ?ws]"
      by (rule map_cong) (simp_all add: byte_at_append_old)
    also have "\<dots> = wa_bytes (bytes_wa (base64_parse p v))"
      using assms by (simp add: wa_bytes_def len)
    finally show ?thesis by simp
  qed
  have new: "map (byte_at (?ws @ [0])) [4 * length ?ws..<4 * Suc (length ?ws)] = [0, 0, 0, 0]"
    unfolding upt_4
    using byte_at_append_new[of 0 ?ws 0] byte_at_append_new[of 1 ?ws 0]
      byte_at_append_new[of 2 ?ws 0] byte_at_append_new[of 3 ?ws 0]
    by simp
  have "wa_bytes (correctIvLength p v) = map (byte_at (?ws @ [0])) [0..<16]"
    by (simp add: wa_bytes_def correctIvLength_def Let_def WordArray_create_def Base64_parse_def len)
  then show ?thesis
    unfolding split map_append old new .
qed

section \<open>Facts about the stand-ins\<close>

lemma demo_sel [simp]:
  "random_bytes demo = demo_random"
  "base64_stringify demo = bytes_string"
  "base64_parse demo = string_bytes"
  "utf8_parse demo = string_bytes"
  "utf8_stringify demo = demo_utf8_stringify"
  "sha512 demo = demo_sha512"
  "hmac_sha512 demo = demo_hmac"
  "aes_encrypt demo = demo_aes_encrypt"
  "aes_decrypt demo = demo_aes_decrypt"
  "scalarMult demo = (\<lambda>a B. map2 (*) a B)"
  "scalarMult_base demo = map ((*) 3)"
  "localeCompare demo = demo_localeCompare"
  by (simp_all add: demo_def)

lemma string_bytes_bytes_string [simp]: "string_bytes (bytes_string bs) = bs"
proof -
  have "(of_nat (of_char (char_of (unat b) :: char) :: nat) :: byte) = b" for b :: byte
  proof -
    have "unat b < 256" using unsigned_less[of b, where ?'a = nat] by simp
    then show ?thesis by (simp add: of_char_of)
  qed
  then show ?thesis
    by (simp add: string_bytes_def bytes_string_def comp_def)
qed

lemma length_string_bytes [simp]: "length (string_bytes s) = length s"
  by (simp add: string_bytes_def)

lemma length_bytes_string [simp]: "length (bytes_string bs) = length bs"
  by (simp add: bytes_string_def)

lemma length_alice_priv [simp]: "length alice_priv = 32"
  by (simp add: alice_priv_def)

lemma length_bob_priv [simp]: "length bob_priv = 32"
  by (simp add: bob_priv_def)

lemma length_demo_sha512 [simp]: "length (demo_sha512 bs) = 64"
  by (simp add: demo_sha512_def)

lemma demo_scalarMult_comm:
  "length a = length b \<Longrightarrow> map2 (*) a (map ((*) (3::byte)) b) = map2 (*) b (map ((*) 3) a)"
  by (induction a b rule: list_induct2) (simp_all add: mult.left_commute)

section \<open>Encryption builds the envelope; decryption of a built envelope\<close>

lemma update_fresh: "k \<notin> fst ` set al \<Longrightarrow> AList.update k v al = al @ [(k, v)]"
  by (induction al) auto

lemma map_entry_here:
  "k \<notin> fst ` set pre \<Longrightarrow> AList.map_entry k f (pre @ (k, v) # post) = pre @ (k, f v) # post"
  by (induction pre) auto

lemma newIV_result:
  assumes "newIV p used g = Some y"
  shows "fst y \<notin> set used"
  by (rule newIV.raw_induct[where P = "\<lambda>p used g y. fst y \<notin> set used", OF _ assms])
    (auto split: prod.splits if_splits)

lemma newIV_fresh:
  assumes "Base64_stringify p (fst (WordArray_random p 12 g)) \<notin> set used"
  shows "newIV p used g =
     Some (Base64_stringify p (fst (WordArray_random p 12 g)), snd (WordArray_random p 12 g))"
  using assms by (subst newIV.simps) (cases "WordArray_random p 12 g", simp)

lemma encrypt_entries_char:
  assumes "encrypt_entries p pt rs (txt0, h0, used0, g0) = Some (txt, h, used, g)"
    and "distinct (map fst rs)"
    and "fst ` set txt0 \<inter> fst ` set rs = {}"
  shows "\<exists>ivs. length ivs = length rs \<and> used = used0 @ ivs \<and>
           txt = txt0 @ map2 (new_entry p pt) rs ivs \<and>
           h = fold (hmacInput_step p) (map2 (new_entry p pt) rs ivs) h0"
  using assms
proof (induction rs arbitrary: txt0 h0 used0 g0)
  case Nil
  then show ?case by simp
next
  case (Cons r rs)
  obtain name key where r: "r = (name, key)" by (cases r)
  from Cons.prems(1) obtain v g1 where
    nv: "newIV p used0 g0 = Some (v, g1)"
    and rest: "encrypt_entries p pt rs
        (AList.update name (snd (new_entry p pt r v)) txt0, hmacInput_step p (new_entry p pt r v) h0,
         used0 @ [v], g1) = Some (txt, h, used, g)"
    by (auto simp: r new_entry_def hmacInput_step_def Let_def split: option.splits)
  have fresh: "name \<notin> fst ` set txt0"
    using Cons.prems(3) by (auto simp: r)
  have upd: "AList.update name (snd (new_entry p pt r v)) txt0 = txt0 @ [new_entry p pt r v]"
    using fresh by (simp add: update_fresh new_entry_def r)
  have d: "distinct (map fst rs)" using Cons.prems(2) by simp
  have disj: "fst ` set (txt0 @ [new_entry p pt r v]) \<inter> fst ` set rs = {}"
    using Cons.prems(2,3) by (auto simp: r new_entry_def)
  from Cons.IH[OF rest[unfolded upd] d disj]
  obtain ivs where ivs: "length ivs = length rs" "used = (used0 @ [v]) @ ivs"
    "txt = (txt0 @ [new_entry p pt r v]) @ map2 (new_entry p pt) rs ivs"
    "h = fold (hmacInput_step p) (map2 (new_entry p pt) rs ivs) (hmacInput_step p (new_entry p pt r v) h0)"
    by blast
  show ?case
    by (rule exI[of _ "v # ivs"]) (use ivs in simp)
qed

lemma fst_new_entry [simp]: "fst (new_entry p pt r v) = fst r"
  by (simp add: new_entry_def)

lemma fst_final_entry [simp]: "fst (final_entry p pt h r v) = fst r"
  by (simp add: final_entry_def)

lemma map_fst_map2_new_entry:
  "length rs = length ivs \<Longrightarrow> map fst (map2 (new_entry p pt) rs ivs) = map fst rs"
  by (induction rs ivs rule: list_induct2) simp_all

lemma map_fst_map2_final_entry:
  "length rs = length ivs \<Longrightarrow> map fst (map2 (final_entry p pt h) rs ivs) = map fst rs"
  by (induction rs ivs rule: list_induct2) simp_all

lemma encrypt_hmacs_char:
  assumes "length rs = length ivs"
    and "distinct (map fst rs)"
    and "fst ` set pre \<inter> fst ` set rs = {}"
  shows "encrypt_hmacs p h rs (pre @ map2 (new_entry p pt) rs ivs, t0) =
           (pre @ map2 (final_entry p pt h) rs ivs, fold (tag_step p h) rs t0)"
  using assms
proof (induction rs ivs arbitrary: pre t0 rule: list_induct2)
  case Nil
  show ?case by simp
next
  case (Cons r rs v ivs)
  obtain name key where r: "r = (name, key)" by (cases r)
  have fresh: "name \<notin> fst ` set pre"
    using Cons.prems(2) by (auto simp: r)
  have step: "AList.map_entry name (\<lambda>e. e\<lparr>hmac := Some (HMAC p h (secret_hmac key))\<rparr>)
        (pre @ new_entry p pt r v # map2 (new_entry p pt) rs ivs) =
      (pre @ [final_entry p pt h r v]) @ map2 (new_entry p pt) rs ivs"
    using map_entry_here[OF fresh, of _ "snd (new_entry p pt r v)"]
    by (simp add: new_entry_def final_entry_def r)
  have d: "distinct (map fst rs)" using Cons.prems(1) by simp
  have disj: "fst ` set (pre @ [final_entry p pt h r v]) \<inter> fst ` set rs = {}"
    using Cons.prems(1,2) by (auto simp: r)
  show ?case
    using Cons.IH[OF d disj, of "tag_step p h r t0"] step
    by (simp add: r tag_step_def Let_def)
qed

lemma hmacInput_step_final:
  "hmacInput_step p (final_entry p pt h r v) = hmacInput_step p (new_entry p pt r v)"
  by (simp add: hmacInput_step_def final_entry_def new_entry_def fun_eq_iff)

lemma fold_hmacInput_step_final:
  "length rs = length ivs \<Longrightarrow>
   fold (hmacInput_step p) (map2 (final_entry p pt h) rs ivs) h0 =
   fold (hmacInput_step p) (map2 (new_entry p pt) rs ivs) h0"
  by (induction rs ivs arbitrary: h0 rule: list_induct2) (simp_all add: hmacInput_step_final)

lemma map_of_distinct_mem:
  "distinct (map fst al) \<Longrightarrow> (k, v) \<in> set al \<Longrightarrow> map_of al k = Some v"
  by simp

lemma hmacInput_decrypt_fold:
  assumes "distinct (map fst txt)" and "set es \<subseteq> set txt"
  shows "hmacInput_decrypt p txt (map fst es) h0 = fold (hmacInput_step p) es h0"
  using assms(2)
proof (induction es arbitrary: h0)
  case Nil
  show ?case by simp
next
  case (Cons ne es)
  have "map_of txt (fst ne) = Some (snd ne)"
    using assms(1) Cons.prems by (intro map_of_distinct_mem) auto
  then show ?case
    using Cons by (simp add: hmacInput_step_def)
qed

lemma messageTag_decrypt_fold:
  assumes "distinct (map fst txt)"
    and "length rs = length ivs"
    and "set (map2 (final_entry p pt h) rs ivs) \<subseteq> set txt"
  shows "messageTag_decrypt p txt (map fst rs) t0 = Some (fold (tag_step p h) rs t0)"
  using assms(2,3)
proof (induction rs ivs arbitrary: t0 rule: list_induct2)
  case Nil
  show ?case by simp
next
  case (Cons r rs v ivs)
  have "map_of txt (fst r) = Some (snd (final_entry p pt h r v))"
    using assms(1) Cons.prems by (intro map_of_distinct_mem) (auto simp: final_entry_def)
  then show ?case
    using Cons by (simp add: tag_step_def final_entry_def)
qed

lemma set_insert_by [simp]: "set (insert_by cmp x ys) = insert x (set ys)"
  by (induction ys) auto

lemma set_js_sort_by [simp]: "set (js_sort_by cmp xs) = set xs"
  by (induction xs) (simp_all add: js_sort_by_def)

lemma distinct_map_insert_by:
  "distinct (map f (insert_by cmp x ys)) \<longleftrightarrow> f x \<notin> f ` set ys \<and> distinct (map f ys)"
  by (induction ys) auto

lemma distinct_map_js_sort_by [simp]:
  "distinct (map f (js_sort_by cmp xs)) \<longleftrightarrow> distinct (map f xs)"
  using set_js_sort_by[of cmp]
  by (induction xs) (simp_all add: js_sort_by_def distinct_map_insert_by)

lemma encrypt_char:
  assumes enc: "encrypt p s recipients used g = Some (env, used', g')"
    and dist: "distinct (map fst (resolved recipients))"
  shows "\<exists>ivs. length (sortedRecipients_encrypt p recipients) = length ivs \<and> used' = used @ ivs \<and>
     msg_text env =
       map2 (final_entry p (padded_plaintext p s g)
              (hmacInput_of p (padded_plaintext p s g) (sortedRecipients_encrypt p recipients) ivs))
         (sortedRecipients_encrypt p recipients) ivs \<and>
     tag env =
       createMessageTag p
         (fold (tag_step p
                 (hmacInput_of p (padded_plaintext p s g) (sortedRecipients_encrypt p recipients) ivs))
            (sortedRecipients_encrypt p recipients) (padded_plaintext p s g))"
proof -
  let ?rs = "sortedRecipients_encrypt p recipients"
  let ?pt = "padded_plaintext p s g"
  have d: "distinct (map fst ?rs)"
    using dist by (simp add: sortedRecipients_encrypt_def)
  obtain pad g1 where rnd: "WordArray_random p 64 g = (pad, g1)"
    by (cases "WordArray_random p 64 g")
  have pt: "wa_concat (Utf8_parse p s) pad = ?pt"
    by (simp add: padded_plaintext_def rnd)
  from enc obtain tx h g2 where
    ee: "encrypt_entries p ?pt ?rs ([], WordArray_create [], used, g1) = Some (tx, h, used', g2)"
    and fin: "env = \<lparr>msg_type = ''message'', msg_text = fst (encrypt_hmacs p h ?rs (tx, ?pt)),
                tag = createMessageTag p (snd (encrypt_hmacs p h ?rs (tx, ?pt)))\<rparr>"
    by (auto simp: encrypt_def rnd pt Let_def split: option.splits prod.splits)
  from encrypt_entries_char[OF ee d]
  obtain ivs where ivs: "length ivs = length ?rs" "used' = used @ ivs"
    "tx = map2 (new_entry p ?pt) ?rs ivs" "h = hmacInput_of p ?pt ?rs ivs"
    by (auto simp: hmacInput_of_def)
  have eh: "encrypt_hmacs p h ?rs (tx, ?pt) =
      (map2 (final_entry p ?pt h) ?rs ivs, fold (tag_step p h) ?rs ?pt)"
    using encrypt_hmacs_char[of ?rs ivs "[]" p h ?pt ?pt] ivs(1) d by (simp add: ivs(3))
  show ?thesis
    by (rule exI[of _ ivs]) (use ivs fin eh in simp)
qed

lemma wa_bytes_create_sig_take:
  "n \<le> length bs \<Longrightarrow> wa_bytes (WordArray_create_sig (words (bytes_wa bs)) n) = take n bs"
  by (auto intro!: nth_equalityI simp: wa_bytes_def WordArray_create_sig_def byte_at_bytes_wa)

lemma decrypt_unfold:
  assumes "map_of (msg_text msg) me = Some mine"
    and "mpSecretKey sender = Some key"
    and "hmac mine = Some mac"
  shows "decrypt p me possible msg sender used =
     (if mac \<noteq> HMAC p (hmacInput_decrypt p (msg_text msg)
                        (sortedRecipients_decrypt (msg_text msg)) (WordArray_create []))
                 (secret_hmac key)
      then (Inl (AuthenticationFailure (nickname sender)), used)
      else if iv mine \<in> set used then (Inl (ReplayDetected (nickname sender)), used)
      else if sigBytes (decryptAES p (message mine) (secret_message key) (iv mine)) < 64
      then (Inl (InvalidPlaintextSize (nickname sender)), used @ [iv mine])
      else (case messageTag_decrypt p (msg_text msg) (sortedRecipients_decrypt (msg_text msg))
                  (decryptAES p (message mine) (secret_message key) (iv mine)) of
              None \<Rightarrow> (Inl TypeError, used @ [iv mine])
            | Some messageTag \<Rightarrow>
                if createMessageTag p messageTag \<noteq> tag msg
                then (Inl (TagFailure (nickname sender)), used @ [iv mine])
                else (case utf8_stringify p
                        (wa_bytes (WordArray_create_sig
                           (words (decryptAES p (message mine) (secret_message key) (iv mine)))
                           (sigBytes (decryptAES p (message mine) (secret_message key) (iv mine)) - 64))) of
                        None \<Rightarrow> (Inr (ReturnedString []), used @ [iv mine])
                      | Some s \<Rightarrow>
                          (Inr (ReturnedObject s
                             (filter (\<lambda>r. r \<noteq> nickname sender \<and> r \<notin> fst ` set (msg_text msg))
                                possible)), used @ [iv mine]))))"
  by (simp add: decrypt_def Let_def assms cong: option.case_cong if_cong)

lemma decrypt_built:
  assumes len: "length rs = length ivs"
    and d: "distinct (map fst rs)"
    and ord: "sorted (map fst rs)"
    and i: "i < length rs" and r: "rs ! i = (name, key)"
    and sender: "mpSecretKey sender = Some key"
    and aes: "aes_decrypt p (encryptAES p pt (secret_message key) (ivs ! i)) (wa_bytes (secret_message key))
                (wa_bytes (correctIvLength p (ivs ! i))) = wa_bytes pt"
    and canon: "bytes_wa (wa_bytes pt) = pt"
  shows "decrypt p name possible (build_envelope p pt rs ivs) sender used =
     (if ivs ! i \<in> set used then (Inl (ReplayDetected (nickname sender)), used)
      else if sigBytes pt < 64 then (Inl (InvalidPlaintextSize (nickname sender)), used @ [ivs ! i])
      else (case utf8_stringify p (take (sigBytes pt - 64) (wa_bytes pt)) of
              None \<Rightarrow> (Inr (ReturnedString []), used @ [ivs ! i])
            | Some s \<Rightarrow> (Inr (ReturnedObject s (missing possible sender rs)), used @ [ivs ! i])))"
proof -
  define h where "h = hmacInput_of p pt rs ivs"
  define tx where "tx = map2 (final_entry p pt h) rs ivs"
  define mine where "mine = snd (final_entry p pt h (name, key) (ivs ! i))"
  have env: "msg_text (build_envelope p pt rs ivs) = tx"
    "tag (build_envelope p pt rs ivs) = createMessageTag p (fold (tag_step p h) rs pt)"
    by (simp_all add: build_envelope_def tx_def h_def)
  have keys: "map fst tx = map fst rs"
    unfolding tx_def using len by (rule map_fst_map2_final_entry)
  have dk: "distinct (map fst tx)" using d unfolding keys .
  have "tx ! i = final_entry p pt h (rs ! i) (ivs ! i)"
    using i len by (simp add: tx_def)
  moreover have "i < length tx" using i len by (simp add: tx_def)
  ultimately have "final_entry p pt h (rs ! i) (ivs ! i) \<in> set tx"
    by (metis nth_mem)
  then have mine: "map_of tx name = Some mine"
    using dk unfolding mine_def by (intro map_of_distinct_mem) (auto simp: r final_entry_def)
  have fields: "message mine = encryptAES p pt (secret_message key) (ivs ! i)"
    "iv mine = ivs ! i" "hmac mine = Some (HMAC p h (secret_hmac key))"
    by (simp_all add: mine_def final_entry_def)
  have srt: "sortedRecipients_decrypt tx = map fst rs"
    using ord unfolding sortedRecipients_decrypt_def keys by (rule sorted_sort_id)
  have "hmacInput_decrypt p tx (map fst tx) (WordArray_create []) =
      fold (hmacInput_step p) tx (WordArray_create [])"
    by (rule hmacInput_decrypt_fold[OF dk subset_refl])
  then have "hmacInput_decrypt p tx (map fst rs) (WordArray_create []) =
      fold (hmacInput_step p) tx (WordArray_create [])"
    unfolding keys .
  also have "\<dots> = fold (hmacInput_step p) (map2 (new_entry p pt) rs ivs) (WordArray_create [])"
    unfolding tx_def by (rule fold_hmacInput_step_final[OF len])
  finally have hin: "hmacInput_decrypt p tx (map fst rs) (WordArray_create []) = h"
    by (simp only: hmacInput_of_def h_def)
  have mtag: "messageTag_decrypt p tx (map fst rs) pt = Some (fold (tag_step p h) rs pt)"
    using messageTag_decrypt_fold[OF dk len, of p pt h pt] by (simp add: tx_def)
  have dec: "decryptAES p (encryptAES p pt (secret_message key) (ivs ! i)) (secret_message key) (ivs ! i) = pt"
    by (simp add: decryptAES_def aes canon)
  have body: "wa_bytes (WordArray_create_sig (words pt) (sigBytes pt - 64)) = take (sigBytes pt - 64) (wa_bytes pt)"
    using wa_bytes_create_sig_take[of "sigBytes pt - 64" "wa_bytes pt"] by (simp add: canon)
  have fs: "fst ` set tx = fst ` set rs"
    using keys by (metis set_map)
  show ?thesis
    unfolding decrypt_unfold[of "build_envelope p pt rs ivs", unfolded env, OF mine sender fields(3)]
    by (simp add: fields srt hin mtag dec body fs missing_def cong: option.case_cong if_cong)
qed

section \<open>Public keys survive their transport encoding\<close>

text \<open>
  C10. For a 32-byte private key whose public key \<^verbatim>\<open>nacl.scalarMult.base\<close> returns as 32 bytes,
  and a Base64 decoder that inverts the encoder on these bytes, \<^verbatim>\<open>parsePublicKey\<close> applied to
  the \<^verbatim>\<open>encoded\<close> field that \<^verbatim>\<open>publicKeyFromPrivate\<close> produced returns its \<^verbatim>\<open>raw\<close> field.
\<close>

theorem parsePublicKey_publicKeyFromPrivate:
  assumes "length privateKey = 32"
    and "length (scalarMult_base p privateKey) = 32"
    and "base64_parse p (base64_stringify p (scalarMult_base p privateKey)) =
         scalarMult_base p privateKey"
  shows "parsePublicKey p (encoded (publicKeyFromPrivate p privateKey)) =
         raw (publicKeyFromPrivate p privateKey)"
  using assms
  by (simp add: parsePublicKey_def publicKeyFromPrivate_def Let_def Base64_parse_def
      Base64_stringify_def toWordArray_eq fromWordArray_bytes_wa)

theorem parsePublicKey_publicKeyFromPrivate_witness:
  "length alice_priv = 32 \<and>
   parsePublicKey demo (encoded (publicKeyFromPrivate demo alice_priv)) =
     raw (publicKeyFromPrivate demo alice_priv)"
  using parsePublicKey_publicKeyFromPrivate[of alice_priv demo] by simp

section \<open>The shared secret\<close>

text \<open>
  C8. \<^verbatim>\<open>sharedSecret\<close> hashes the output of \<^verbatim>\<open>nacl.scalarMult\<close>; when the hash returns 64
  bytes, the \<^verbatim>\<open>message\<close> key is bytes 0-31 of the hash and the \<^verbatim>\<open>hmac\<close> key is bytes 32-63.
  When the scalar multiplication commutes, \<open>scalarMult a B = scalarMult b A\<close>, both sides derive
  the same secret, in both subkeys.
\<close>

theorem sharedSecret_split_symmetric:
  assumes "length (sha512 p (scalarMult p a B)) = 64"
    and "scalarMult p a B = scalarMult p b A"
  shows "wa_bytes (secret_message (sharedSecret p a B)) = take 32 (sha512 p (scalarMult p a B)) \<and>
         wa_bytes (secret_hmac (sharedSecret p a B)) = drop 32 (sha512 p (scalarMult p a B)) \<and>
         secret_message (sharedSecret p a B) = secret_message (sharedSecret p b A) \<and>
         secret_hmac (sharedSecret p a B) = secret_hmac (sharedSecret p b A)"
  using assms
  by (simp add: sharedSecret_def Let_def SHA512_def toWordArray_eq wa_bytes_create_take
      wa_bytes_create_drop)

theorem sharedSecret_split_symmetric_witness:
  "length (sha512 demo (scalarMult demo alice_priv bob_pub)) = 64 \<and>
   scalarMult demo alice_priv bob_pub = scalarMult demo bob_priv alice_pub \<and>
   wa_bytes (secret_message (sharedSecret demo alice_priv bob_pub)) =
     take 32 (sha512 demo (scalarMult demo alice_priv bob_pub)) \<and>
   wa_bytes (secret_hmac (sharedSecret demo alice_priv bob_pub)) =
     drop 32 (sha512 demo (scalarMult demo alice_priv bob_pub)) \<and>
   secret_message (sharedSecret demo alice_priv bob_pub) =
     secret_message (sharedSecret demo bob_priv alice_pub) \<and>
   secret_hmac (sharedSecret demo alice_priv bob_pub) =
     secret_hmac (sharedSecret demo bob_priv alice_pub)"
proof -
  have 1: "length (sha512 demo (scalarMult demo alice_priv bob_pub)) = 64"
    by simp
  have 2: "scalarMult demo alice_priv bob_pub = scalarMult demo bob_priv alice_pub"
    by (simp add: alice_pub_def bob_pub_def publicKeyFromPrivate_def Let_def demo_scalarMult_comm)
  show ?thesis
    using sharedSecret_split_symmetric[OF 1 2] 1 2 by blast
qed

section \<open>The counter block\<close>

text \<open>
  C9. For an IV whose Base64 string decodes to 12 bytes, \<^verbatim>\<open>correctIvLength\<close> yields those 12
  bytes followed by four zero bytes, 16 bytes in all, and \<^verbatim>\<open>encryptAES\<close> and \<^verbatim>\<open>decryptAES\<close>
  both hand exactly this block to the cipher as its counter.
\<close>

theorem correctIvLength_zero_extends:
  assumes "length (base64_parse p v) = 12"
  shows "wa_bytes (correctIvLength p v) = base64_parse p v @ [0, 0, 0, 0] \<and>
         length (wa_bytes (correctIvLength p v)) = 16 \<and>
         encryptAES p msg c v =
           aes_encrypt p (wa_bytes msg) (wa_bytes c) (base64_parse p v @ [0, 0, 0, 0]) \<and>
         decryptAES p ct c v =
           bytes_wa (aes_decrypt p ct (wa_bytes c) (base64_parse p v @ [0, 0, 0, 0]))"
  using assms wa_bytes_correctIvLength[OF assms]
  by (simp add: encryptAES_def decryptAES_def correctIvLength_def Let_def WordArray_create_def
      length_words_bytes_wa Base64_parse_def)

theorem correctIvLength_zero_extends_witness:
  "length (base64_parse demo ''ABCDEFGHIJKL'') = 12 \<and>
   wa_bytes (correctIvLength demo ''ABCDEFGHIJKL'') =
     base64_parse demo ''ABCDEFGHIJKL'' @ [0, 0, 0, 0] \<and>
   length (wa_bytes (correctIvLength demo ''ABCDEFGHIJKL'')) = 16"
  using correctIvLength_zero_extends[of demo "''ABCDEFGHIJKL''"] by simp

section \<open>Encrypt, then decrypt\<close>

lemma wa_bytes_wa_concat [simp]: "wa_bytes (wa_concat a b) = wa_bytes a @ wa_bytes b"
  by (simp add: wa_concat_def)

lemma canon_wa_concat: "bytes_wa (wa_bytes (wa_concat a b)) = wa_concat a b"
  by (simp add: wa_concat_def)

lemma wa_bytes_padded_plaintext:
  "wa_bytes (padded_plaintext p s g) = utf8_parse p s @ fst (random_bytes p 64 g)"
  by (simp add: padded_plaintext_def Utf8_parse_def WordArray_random_def split: prod.splits)

lemma set_resolved:
  "set (resolved recipients) =
     {(nickname r, k) | r k. r \<in> set recipients \<and> mpSecretKey r = Some k}"
proof -
  have "set (resolved recipients) \<subseteq> {(nickname r, k) | r k. r \<in> set recipients \<and> mpSecretKey r = Some k}"
    by (auto simp: resolved_def map_filter_def split: option.splits)
  moreover have "(nickname r, k) \<in> set (resolved recipients)"
    if "r \<in> set recipients" "mpSecretKey r = Some k" for r k
    using that by (force simp: resolved_def map_filter_def image_iff)
  ultimately show ?thesis by blast
qed

lemma built_entry:
  assumes len: "length rs = length ivs"
    and d: "distinct (map fst rs)"
    and i: "i < length rs" and r: "rs ! i = (name, key)"
  shows "map_of (msg_text (build_envelope p pt rs ivs)) name =
           Some (snd (final_entry p pt (hmacInput_of p pt rs ivs) (name, key) (ivs ! i)))"
proof -
  define tx where "tx = map2 (final_entry p pt (hmacInput_of p pt rs ivs)) rs ivs"
  have keys: "map fst tx = map fst rs"
    unfolding tx_def using len by (rule map_fst_map2_final_entry)
  have dk: "distinct (map fst tx)" using d unfolding keys .
  have "tx ! i = final_entry p pt (hmacInput_of p pt rs ivs) (rs ! i) (ivs ! i)"
    using i len by (simp add: tx_def)
  moreover have "i < length tx" using i len by (simp add: tx_def)
  ultimately have "final_entry p pt (hmacInput_of p pt rs ivs) (rs ! i) (ivs ! i) \<in> set tx"
    by (metis nth_mem)
  then have "map_of tx name = Some (snd (final_entry p pt (hmacInput_of p pt rs ivs) (name, key) (ivs ! i)))"
    using dk by (intro map_of_distinct_mem) (auto simp: r final_entry_def)
  then show ?thesis by (simp add: build_envelope_def tx_def)
qed

lemma encrypt_built:
  assumes "encrypt p s recipients used g = Some (env, used', g')"
    and "distinct (map fst (resolved recipients))"
  shows "\<exists>ivs. length (sortedRecipients_encrypt p recipients) = length ivs \<and> used' = used @ ivs \<and>
     env = build_envelope p (padded_plaintext p s g) (sortedRecipients_encrypt p recipients) ivs"
proof -
  from encrypt_char[OF assms] obtain ivs where
    "length (sortedRecipients_encrypt p recipients) = length ivs" "used' = used @ ivs"
    "msg_text env = msg_text (build_envelope p (padded_plaintext p s g) (sortedRecipients_encrypt p recipients) ivs)"
    "tag env = tag (build_envelope p (padded_plaintext p s g) (sortedRecipients_encrypt p recipients) ivs)"
    by (auto simp: build_envelope_def)
  moreover have "msg_type env = ''message''"
    using assms(1) by (auto simp: encrypt_def Let_def split: prod.splits option.splits)
  ultimately show ?thesis
    by (intro exI[of _ ivs]) (simp add: build_envelope_def)
qed

lemma decrypt_encrypt:
  assumes enc: "encrypt p s recipients used g = Some (env, used', g')"
    and dist: "distinct (map fst (resolved recipients))"
    and ord: "sorted (map fst (sortedRecipients_encrypt p recipients))"
    and mem: "(name, key) \<in> set (resolved recipients)"
    and sender: "mpSecretKey sender = Some key"
    and aes: "\<And>m k c. aes_decrypt p (aes_encrypt p m k c) k c = m"
    and utf: "utf8_stringify p (utf8_parse p s) = Some s"
    and rnd: "length (fst (random_bytes p 64 g)) = 64"
  shows "\<exists>e. map_of (msg_text env) name = Some e \<and> iv e \<in> set used' \<and>
     (\<forall>used_r. decrypt p name possible env sender used_r =
        (if iv e \<in> set used_r then (Inl (ReplayDetected (nickname sender)), used_r)
         else (Inr (ReturnedObject s (missing possible sender (resolved recipients))),
               used_r @ [iv e])))"
proof -
  let ?rs = "sortedRecipients_encrypt p recipients"
  let ?pt = "padded_plaintext p s g"
  from encrypt_built[OF enc dist] obtain ivs where
    len: "length ?rs = length ivs" and used': "used' = used @ ivs"
    and env: "env = build_envelope p ?pt ?rs ivs"
    by blast
  have d: "distinct (map fst ?rs)"
    using dist by (simp add: sortedRecipients_encrypt_def)
  have "(name, key) \<in> set ?rs"
    using mem by (simp add: sortedRecipients_encrypt_def)
  then obtain i where i: "i < length ?rs" and r: "?rs ! i = (name, key)"
    by (auto simp: in_set_conv_nth)
  let ?e = "snd (final_entry p ?pt (hmacInput_of p ?pt ?rs ivs) (name, key) (ivs ! i))"
  have e: "map_of (msg_text env) name = Some ?e"
    unfolding env by (rule built_entry[OF len d i r])
  have iv: "iv ?e = ivs ! i" by (simp add: final_entry_def)
  have inreg: "iv ?e \<in> set used'"
    using i len by (simp add: iv used')
  have canon: "bytes_wa (wa_bytes ?pt) = ?pt"
    unfolding padded_plaintext_def by (rule canon_wa_concat)
  have a: "aes_decrypt p (encryptAES p ?pt (secret_message key) (ivs ! i))
      (wa_bytes (secret_message key)) (wa_bytes (correctIvLength p (ivs ! i))) = wa_bytes ?pt"
    by (simp add: encryptAES_def aes)
  have sz: "sigBytes ?pt = length (utf8_parse p s) + 64"
    using rnd wa_bytes_padded_plaintext[of p s g] length_wa_bytes[of ?pt] by simp
  have body: "take (length (utf8_parse p s)) (wa_bytes ?pt) = utf8_parse p s"
    by (simp add: wa_bytes_padded_plaintext)
  have set_eq: "fst ` set ?rs = fst ` set (resolved recipients)"
    by (simp add: sortedRecipients_encrypt_def)
  have res: "decrypt p name possible env sender used_r =
        (if iv ?e \<in> set used_r then (Inl (ReplayDetected (nickname sender)), used_r)
         else (Inr (ReturnedObject s (missing possible sender (resolved recipients))),
               used_r @ [iv ?e]))" for used_r
    unfolding env decrypt_built[OF len d ord i r sender a canon] iv
    by (simp add: sz body utf missing_def set_eq)
  show ?thesis
    using e inreg res by blast
qed

lemma sharedSecret_cong:
  "scalarMult p a B = scalarMult p b A \<Longrightarrow> sharedSecret p a B = sharedSecret p b A"
  by (simp add: sharedSecret_def)

lemma alice_at_bob_key: "mpSecretKey alice_at_bob = Some alice_bob_key"
proof -
  have "scalarMult demo bob_priv alice_pub = scalarMult demo alice_priv bob_pub"
    by (simp add: alice_pub_def bob_pub_def publicKeyFromPrivate_def Let_def demo_scalarMult_comm)
  then have "sharedSecret demo bob_priv alice_pub = sharedSecret demo alice_priv bob_pub"
    by (rule sharedSecret_cong)
  then show ?thesis
    by (simp add: alice_at_bob_def alice_bob_key_def)
qed

lemma resolved_demo:
  "resolved [carol, bob] = [(''carol'', alice_carol_key), (''bob'', alice_bob_key)]"
  by (simp add: resolved_def map_filter_def carol_def bob_def)

lemma demo_compare_carol_bob: "demo_localeCompare ''carol'' ''bob'' = 1"
  by code_simp

lemma sorted_demo: "sortedRecipients_encrypt demo [carol, bob] =
    [(''bob'', alice_bob_key), (''carol'', alice_carol_key)]"
  by (simp add: sortedRecipients_encrypt_def resolved_demo js_sort_by_def demo_compare_carol_bob)

lemma sorted_bob_carol: "sorted [''bob'', ''carol'']"
  by code_simp

lemma demo_aes: "demo_aes_decrypt (demo_aes_encrypt m k c) k c = m"
  by (simp add: demo_aes_decrypt_def demo_aes_encrypt_def comp_def)

lemma demo_utf8_hi: "demo_utf8_stringify (string_bytes ''hi'') = Some ''hi''"
  by code_simp

lemma bytes_string_inj [simp]: "bytes_string a = bytes_string b \<longleftrightarrow> a = b"
  by (metis string_bytes_bytes_string)

lemma demo_random_simp [simp]: "WordArray_random demo n g = (bytes_wa (replicate n (of_nat g)), Suc g)"
  by (simp add: WordArray_random_def demo_random_def)

lemma demo_b64 [simp]: "Base64_stringify demo (bytes_wa bs) = bytes_string bs"
  by (simp add: Base64_stringify_def)

lemma demo_entries_Some:
  "\<exists>x. encrypt_entries demo pt [(''bob'', alice_bob_key), (''carol'', alice_carol_key)]
            ([], WordArray_create [], [], Suc 0) = Some x"
proof -
  have 1: "newIV demo [] (Suc 0) = Some (bytes_string (replicate 12 1), Suc (Suc 0))"
    by (subst newIV_fresh) simp_all
  have 2: "newIV demo [bytes_string (replicate 12 1)] (Suc (Suc 0)) =
      Some (bytes_string (replicate 12 2), Suc (Suc (Suc 0)))"
    by (subst newIV_fresh) simp_all
  show ?thesis
    by (simp add: 1 2 Let_def)
qed

lemma encrypt_Some_if_entries:
  assumes "encrypt_entries p (padded_plaintext p s g) (sortedRecipients_encrypt p recipients)
             ([], WordArray_create [], used, snd (WordArray_random p 64 g)) = Some x"
  shows "\<exists>y. encrypt p s recipients used g = Some y"
  using assms
  by (cases x; cases "WordArray_random p 64 g")
    (auto simp: encrypt_def padded_plaintext_def Let_def split: prod.splits)

lemma demo_run_Some: "demo_run = Some (demo_envelope, demo_used, demo_gen)"
proof -
  have g: "snd (WordArray_random demo 64 0) = Suc 0"
    by simp
  from demo_entries_Some[of "padded_plaintext demo ''hi'' 0"]
  obtain x where x: "encrypt_entries demo (padded_plaintext demo ''hi'' 0)
       [(''bob'', alice_bob_key), (''carol'', alice_carol_key)]
       ([], WordArray_create [], [], Suc 0) = Some x"
    by (elim exE)
  have "encrypt_entries demo (padded_plaintext demo ''hi'' 0)
       (sortedRecipients_encrypt demo [carol, bob])
       ([], WordArray_create [], [], snd (WordArray_random demo 64 0)) = Some x"
    unfolding sorted_demo g by (rule x)
  then have "\<exists>y. demo_run = Some y"
    unfolding demo_run_def by (rule encrypt_Some_if_entries)
  then obtain env used g where e: "demo_run = Some (env, used, g)"
    by (metis prod_cases3)
  show ?thesis
    by (simp add: demo_envelope_def demo_used_def demo_gen_def e)
qed

section \<open>Round trip and the shared registry\<close>




section \<open>Replay\<close>

lemma demo_bob_decrypt:
  "\<exists>e. map_of (msg_text demo_envelope) ''bob'' = Some e \<and> iv e \<in> set demo_used \<and>
     (\<forall>used_r. decrypt demo ''bob'' possible demo_envelope alice_at_bob used_r =
        (if iv e \<in> set used_r then (Inl (ReplayDetected ''alice''), used_r)
         else (Inr (ReturnedObject ''hi'' (missing possible alice_at_bob (resolved [carol, bob]))),
               used_r @ [iv e])))"
proof -
  have enc: "encrypt demo ''hi'' [carol, bob] [] 0 = Some (demo_envelope, demo_used, demo_gen)"
    using demo_run_Some by (simp add: demo_run_def)
  have d: "distinct (map fst (resolved [carol, bob]))"
    by (simp add: resolved_demo)
  have s: "sorted (map fst (sortedRecipients_encrypt demo [carol, bob]))"
    by (simp add: sorted_demo sorted_bob_carol del: sorted_wrt.simps sorted2)
  have a: "aes_decrypt demo (aes_encrypt demo m k c) k c = m" for m k c
    by (simp add: demo_aes)
  have u: "utf8_stringify demo (utf8_parse demo ''hi'') = Some ''hi''"
    by (simp add: demo_utf8_hi)
  have l: "length (fst (random_bytes demo 64 0)) = 64"
    by (simp add: demo_random_def)
  have mem: "(''bob'', alice_bob_key) \<in> set (resolved [carol, bob])"
    by (simp add: resolved_demo)
  have n: "nickname alice_at_bob = ''alice''"
    by (simp add: alice_at_bob_def)
  from decrypt_encrypt[OF enc d s mem alice_at_bob_key a u l, of possible]
  show ?thesis unfolding n .
qed



section \<open>Failed calls and the registry\<close>

lemma hmacInput_decrypt_built:
  assumes len: "length rs = length ivs"
    and d: "distinct (map fst rs)"
    and ord: "sorted (map fst rs)"
  shows "hmacInput_decrypt p (msg_text (build_envelope p pt rs ivs))
           (sortedRecipients_decrypt (msg_text (build_envelope p pt rs ivs))) (WordArray_create []) =
         hmacInput_of p pt rs ivs"
proof -
  define h where "h = hmacInput_of p pt rs ivs"
  define tx where "tx = map2 (final_entry p pt h) rs ivs"
  have env: "msg_text (build_envelope p pt rs ivs) = tx"
    by (simp add: build_envelope_def tx_def h_def)
  have keys: "map fst tx = map fst rs"
    unfolding tx_def using len by (rule map_fst_map2_final_entry)
  have dk: "distinct (map fst tx)" using d unfolding keys .
  have srt: "sortedRecipients_decrypt tx = map fst rs"
    using ord unfolding sortedRecipients_decrypt_def keys by (rule sorted_sort_id)
  have "hmacInput_decrypt p tx (map fst tx) (WordArray_create []) =
      fold (hmacInput_step p) tx (WordArray_create [])"
    by (rule hmacInput_decrypt_fold[OF dk subset_refl])
  then have "hmacInput_decrypt p tx (map fst rs) (WordArray_create []) =
      fold (hmacInput_step p) tx (WordArray_create [])"
    unfolding keys .
  also have "\<dots> = fold (hmacInput_step p) (map2 (new_entry p pt) rs ivs) (WordArray_create [])"
    unfolding tx_def by (rule fold_hmacInput_step_final[OF len])
  finally have "hmacInput_decrypt p tx (map fst rs) (WordArray_create []) = h"
    by (simp only: hmacInput_of_def h_def)
  then show ?thesis
    unfolding env srt h_def .
qed

lemma demo_built_for_bob:
  "decrypt demo ''bob'' possible (build_envelope demo (bytes_wa bs) [(''bob'', alice_bob_key)] [v])
     alice_at_bob used =
     (if v \<in> set used then (Inl (ReplayDetected ''alice''), used)
      else if length bs < 64 then (Inl (InvalidPlaintextSize ''alice''), used @ [v])
      else (case demo_utf8_stringify (take (length bs - 64) bs) of
              None \<Rightarrow> (Inr (ReturnedString []), used @ [v])
            | Some s \<Rightarrow>
                (Inr (ReturnedObject s (missing possible alice_at_bob [(''bob'', alice_bob_key)])),
                 used @ [v])))"
proof -
  have a: "aes_decrypt demo (encryptAES demo (bytes_wa bs) (secret_message alice_bob_key) ([v] ! 0))
      (wa_bytes (secret_message alice_bob_key)) (wa_bytes (correctIvLength demo ([v] ! 0))) =
      wa_bytes (bytes_wa bs)"
    by (simp add: encryptAES_def demo_aes)
  have n: "nickname alice_at_bob = ''alice''"
    by (simp add: alice_at_bob_def)
  show ?thesis
    using decrypt_built[of "[(''bob'', alice_bob_key)]" "[v]" 0 "''bob''" alice_bob_key alice_at_bob
        demo "bytes_wa bs" possible used, OF _ _ _ _ _ alice_at_bob_key a]
    by (simp add: n cong: option.case_cong if_cong)
qed

text \<open>
  C5 (amended). When \<^verbatim>\<open>decrypt\<close> throws, the thrown value is one of the six messages, built from
  the sender's nickname alone (or the \<^verbatim>\<open>TypeError\<close> of a malformed entry): no plaintext is
  released. When it throws the not-addressed, missing-key, HMAC or replay error the registry
  is unchanged. When it throws the size or the tag error, the IV of the caller's entry was not
  in the registry and the failed call has appended it.
\<close>

theorem failed_decrypt_registry:
  assumes "decrypt p me possible msg sender used = (Inl err, used')"
  shows "err \<in> {NotAddressedToMe (nickname sender), MissingSenderKey (nickname sender),
                AuthenticationFailure (nickname sender), ReplayDetected (nickname sender),
                InvalidPlaintextSize (nickname sender), TagFailure (nickname sender), TypeError} \<and>
         (err \<in> {NotAddressedToMe (nickname sender), MissingSenderKey (nickname sender),
                 AuthenticationFailure (nickname sender), ReplayDetected (nickname sender)} \<longrightarrow>
            used' = used) \<and>
         (err \<in> {InvalidPlaintextSize (nickname sender), TagFailure (nickname sender)} \<longrightarrow>
            (\<exists>mine. map_of (msg_text msg) me = Some mine \<and> iv mine \<notin> set used \<and>
                    used' = used @ [iv mine]))"
proof (cases "map_of (msg_text msg) me")
  case None
  then show ?thesis using assms by (auto simp: decrypt_def)
next
  case mine: (Some mine)
  show ?thesis
  proof (cases "mpSecretKey sender")
    case None
    then show ?thesis using assms mine by (auto simp: decrypt_def)
  next
    case key: (Some key)
    show ?thesis
    proof (cases "hmac mine")
      case None
      then show ?thesis using assms mine key by (auto simp: decrypt_def Let_def)
    next
      case (Some mac)
      show ?thesis
        using assms unfolding decrypt_unfold[OF mine key Some]
        by (auto simp: mine split: if_splits option.splits)
    qed
  qed
qed

theorem failed_decrypt_registry_witness:
  "decrypt demo ''bob'' [] short_envelope alice_at_bob [''ABCDEFGHIJKL''] =
     (Inl (ReplayDetected ''alice''), [''ABCDEFGHIJKL'']) \<and>
   ReplayDetected ''alice'' \<in> {NotAddressedToMe (nickname alice_at_bob),
      MissingSenderKey (nickname alice_at_bob), AuthenticationFailure (nickname alice_at_bob),
      ReplayDetected (nickname alice_at_bob)}"
proof -
  have 1: "decrypt demo ''bob'' [] short_envelope alice_at_bob [''ABCDEFGHIJKL''] =
     (Inl (ReplayDetected ''alice''), [''ABCDEFGHIJKL''])"
    by (simp add: short_envelope_def demo_built_for_bob)
  from failed_decrypt_registry[OF 1] 1 show ?thesis
    by blast
qed

text \<open>C5 as stated fails: a call that throws the size error has changed the registry.\<close>

theorem failed_decrypt_registry_counterexample:
  "fst (decrypt demo ''bob'' [] short_envelope alice_at_bob []) = Inl (InvalidPlaintextSize ''alice'') \<and>
   snd (decrypt demo ''bob'' [] short_envelope alice_at_bob []) = [''ABCDEFGHIJKL''] \<and>
   snd (decrypt demo ''bob'' [] short_envelope alice_at_bob []) \<noteq> []"
  by (simp add: short_envelope_def demo_built_for_bob)

section \<open>The size gate and the undecodable body\<close>

lemma demo_built_entry_bob:
  "map_of (msg_text (build_envelope demo pt [(''bob'', alice_bob_key)] [v])) ''bob'' =
     Some \<lparr>message = encryptAES demo pt (secret_message alice_bob_key) v, iv = v,
           hmac = Some (HMAC demo
             (hmacInput_decrypt demo (msg_text (build_envelope demo pt [(''bob'', alice_bob_key)] [v]))
                (sortedRecipients_decrypt (msg_text (build_envelope demo pt [(''bob'', alice_bob_key)] [v])))
                (WordArray_create []))
             (secret_hmac alice_bob_key))\<rparr>"
proof -
  have h: "hmacInput_decrypt demo (msg_text (build_envelope demo pt [(''bob'', alice_bob_key)] [v]))
                (sortedRecipients_decrypt (msg_text (build_envelope demo pt [(''bob'', alice_bob_key)] [v])))
                (WordArray_create []) = hmacInput_of demo pt [(''bob'', alice_bob_key)] [v]"
    by (rule hmacInput_decrypt_built) simp_all
  show ?thesis
    unfolding h by (simp add: build_envelope_def final_entry_def)
qed

lemma demo_decryptAES: "decryptAES demo (encryptAES demo pt k v) k v = bytes_wa (wa_bytes pt)"
  by (simp add: decryptAES_def encryptAES_def demo_aes)

text \<open>
  C6 (amended). When the entry for the calling identity decrypts to fewer than 64 bytes,
  \<^verbatim>\<open>decrypt\<close> never succeeds. When moreover the envelope passes the gates that come first (the
  sender's key is resolved, the entry carries the right MAC and its IV is not in the registry),
  \<^verbatim>\<open>decrypt\<close> throws the size error whatever the tag of the envelope is: the tag is not looked
  at. An envelope that does not pass those gates throws their error instead.
\<close>

theorem short_plaintext_rejected:
  assumes "map_of (msg_text msg) me = Some mine"
    and "mpSecretKey sender = Some key"
    and "sigBytes (decryptAES p (message mine) (secret_message key) (iv mine)) < 64"
  shows "(\<forall>r. fst (decrypt p me possible msg sender used) \<noteq> Inr r) \<and>
         (hmac mine =
            Some (HMAC p (hmacInput_decrypt p (msg_text msg) (sortedRecipients_decrypt (msg_text msg))
                           (WordArray_create [])) (secret_hmac key)) \<longrightarrow>
          iv mine \<notin> set used \<longrightarrow>
          (\<forall>t. decrypt p me possible (msg\<lparr>tag := t\<rparr>) sender used =
                 (Inl (InvalidPlaintextSize (nickname sender)), used @ [iv mine])))"
proof (cases "hmac mine")
  case None
  then show ?thesis using assms by (simp add: decrypt_def Let_def)
next
  case (Some mac)
  have mine': "map_of (msg_text (msg\<lparr>tag := t\<rparr>)) me = Some mine" for t
    using assms(1) by simp
  show ?thesis
    unfolding decrypt_unfold[OF assms(1,2) Some] decrypt_unfold[OF mine' assms(2) Some]
    using assms(3) Some by simp
qed

theorem short_plaintext_rejected_witness:
  "decrypt demo ''bob'' [] (short_envelope\<lparr>tag := ''any tag''\<rparr>) alice_at_bob [] =
     (Inl (InvalidPlaintextSize ''alice''), [''ABCDEFGHIJKL''])"
proof -
  let ?mine = "\<lparr>message = encryptAES demo (bytes_wa []) (secret_message alice_bob_key) ''ABCDEFGHIJKL'',
       iv = ''ABCDEFGHIJKL'',
       hmac = Some (HMAC demo
             (hmacInput_decrypt demo (msg_text short_envelope)
                (sortedRecipients_decrypt (msg_text short_envelope)) (WordArray_create []))
             (secret_hmac alice_bob_key))\<rparr>"
  have 1: "map_of (msg_text short_envelope) ''bob'' = Some ?mine"
    unfolding short_envelope_def by (rule demo_built_entry_bob)
  have 3: "sigBytes (decryptAES demo (message ?mine) (secret_message alice_bob_key) (iv ?mine)) < 64"
    by (simp add: demo_decryptAES)
  from short_plaintext_rejected[OF 1 alice_at_bob_key 3, of "[]" "[]"]
  show ?thesis
    by (simp add: alice_at_bob_def)
qed

text \<open>C6 as stated fails: an entry that decrypts to no bytes at all but carries a wrong MAC
  is refused with the HMAC error, not the size error.\<close>

theorem short_plaintext_rejected_counterexample:
  "map_of (msg_text forged_envelope) ''bob'' =
     Some \<lparr>message = [], iv = ''ABCDEFGHIJKL'', hmac = Some []\<rparr> \<and>
   mpSecretKey alice_at_bob = Some alice_bob_key \<and>
   sigBytes (decryptAES demo [] (secret_message alice_bob_key) ''ABCDEFGHIJKL'') < 64 \<and>
   decrypt demo ''bob'' [] forged_envelope alice_at_bob [] =
     (Inl (AuthenticationFailure ''alice''), [])"
proof -
  have 1: "map_of (msg_text forged_envelope) ''bob'' =
     Some \<lparr>message = [], iv = ''ABCDEFGHIJKL'', hmac = Some []\<rparr>"
    by (simp add: forged_envelope_def)
  have 2: "hmac \<lparr>message = [], iv = ''ABCDEFGHIJKL'', hmac = Some []\<rparr> = Some []"
    by simp
  have 3: "sigBytes (decryptAES demo [] (secret_message alice_bob_key) ''ABCDEFGHIJKL'') < 64"
    by (simp add: decryptAES_def demo_aes_decrypt_def string_bytes_def)
  have 4: "[] \<noteq> HMAC demo h k" for h k
    by (simp add: HMAC_def demo_hmac_def demo_sha512_def bytes_string_def)
  have n: "nickname alice_at_bob = ''alice''"
    by (simp add: alice_at_bob_def)
  have "decrypt demo ''bob'' [] forged_envelope alice_at_bob [] =
     (Inl (AuthenticationFailure ''alice''), [])"
    by (simp add: decrypt_unfold[OF 1 alice_at_bob_key 2] 4 n)
  then show ?thesis
    using 1 3 alice_at_bob_key by simp
qed

text \<open>
  C7 (the code at the failing input). When \<^verbatim>\<open>decrypt\<close> returns and the body left after
  stripping the padding is not a valid text encoding, the value returned is the bare empty
  string of line 158, not an object \<^verbatim>\<open>{ plaintext, missingRecipients }\<close>.
\<close>

theorem undecodable_body_returns_string:
  assumes "decrypt p me possible msg sender used = (Inr res, used')"
    and "map_of (msg_text msg) me = Some mine"
    and "mpSecretKey sender = Some key"
    and "utf8_stringify p
           (wa_bytes (WordArray_create_sig
              (words (decryptAES p (message mine) (secret_message key) (iv mine)))
              (sigBytes (decryptAES p (message mine) (secret_message key) (iv mine)) - 64))) = None"
  shows "res = ReturnedString [] \<and> (\<forall>s m. res \<noteq> ReturnedObject s m)"
proof (cases "hmac mine")
  case None
  then show ?thesis using assms by (simp add: decrypt_def Let_def)
next
  case (Some mac)
  show ?thesis
    using assms(1,4) unfolding decrypt_unfold[OF assms(2,3) Some]
    by (auto split: if_splits option.splits)
qed

theorem undecodable_body_returns_string_witness:
  "decrypt demo ''bob'' [''dave''] binary_envelope alice_at_bob [] =
     (Inr (ReturnedString []), [''ABCDEFGHIJKL''])"
proof -
  let ?pt = "bytes_wa (0xFF # replicate 64 0)"
  let ?mine = "\<lparr>message = encryptAES demo ?pt (secret_message alice_bob_key) ''ABCDEFGHIJKL'',
       iv = ''ABCDEFGHIJKL'',
       hmac = Some (HMAC demo
             (hmacInput_decrypt demo (msg_text binary_envelope)
                (sortedRecipients_decrypt (msg_text binary_envelope)) (WordArray_create []))
             (secret_hmac alice_bob_key))\<rparr>"
  have u: "demo_utf8_stringify [0xFF] = None"
    by (simp add: demo_utf8_stringify_def)
  have 1: "decrypt demo ''bob'' [''dave''] binary_envelope alice_at_bob [] =
     (Inr (ReturnedString []), [''ABCDEFGHIJKL''])"
    by (simp add: binary_envelope_def demo_built_for_bob u)
  have 2: "map_of (msg_text binary_envelope) ''bob'' = Some ?mine"
    unfolding binary_envelope_def by (rule demo_built_entry_bob)
  have 4: "utf8_stringify demo
           (wa_bytes (WordArray_create_sig
              (words (decryptAES demo (message ?mine) (secret_message alice_bob_key) (iv ?mine)))
              (sigBytes (decryptAES demo (message ?mine) (secret_message alice_bob_key) (iv ?mine)) - 64))) = None"
    by (simp add: demo_decryptAES wa_bytes_create_sig_take u)
  from undecodable_body_returns_string[OF 1 2 alice_at_bob_key 4] 1
  show ?thesis by simp
qed

section \<open>The two sort orders\<close>

lemma sort_alice_Bob: "sort [''alice'', ''Bob''] = [''Bob'', ''alice'']"
  by code_simp

lemma demo_compare_alice_Bob:
  "demo_localeCompare ''alice'' ''Bob'' = - 1" "demo_localeCompare ''Bob'' ''alice'' = 1"
  by code_simp+

text \<open>
  C3 (the code at the failing input). \<^verbatim>\<open>encrypt\<close> sorts with \<^verbatim>\<open>localeCompare\<close> and \<^verbatim>\<open>decrypt\<close>
  with the default sort, which compares UTF-16 code units. For the recipients \<open>Bob\<close> and
  \<open>alice\<close>, which every locale collation orders \<open>alice\<close>, \<open>Bob\<close>, \<^verbatim>\<open>encrypt\<close> builds the MAC
  input in the order \<open>alice\<close>, \<open>Bob\<close> however they are supplied, and \<^verbatim>\<open>decrypt\<close> recomputes it
  over the envelope in the order \<open>Bob\<close>, \<open>alice\<close>.
\<close>

theorem sort_orders_disagree:
  assumes "localeCompare p ''alice'' ''Bob'' < 0"
    and "0 < localeCompare p ''Bob'' ''alice''"
  shows "map fst (sortedRecipients_encrypt p
                   [\<lparr>nickname = ''Bob'', mpSecretKey = Some k1\<rparr>,
                    \<lparr>nickname = ''alice'', mpSecretKey = Some k2\<rparr>]) = [''alice'', ''Bob''] \<and>
         map fst (sortedRecipients_encrypt p
                   [\<lparr>nickname = ''alice'', mpSecretKey = Some k2\<rparr>,
                    \<lparr>nickname = ''Bob'', mpSecretKey = Some k1\<rparr>]) = [''alice'', ''Bob''] \<and>
         sortedRecipients_decrypt
           (msg_text (build_envelope p pt
              (sortedRecipients_encrypt p
                 [\<lparr>nickname = ''Bob'', mpSecretKey = Some k1\<rparr>,
                  \<lparr>nickname = ''alice'', mpSecretKey = Some k2\<rparr>]) [v1, v2])) =
           [''Bob'', ''alice'']"
  using assms
  by (simp add: sortedRecipients_encrypt_def resolved_def map_filter_def js_sort_by_def
      sortedRecipients_decrypt_def build_envelope_def sort_alice_Bob del: sort_key_simps)

theorem sort_orders_disagree_witness:
  "localeCompare demo ''alice'' ''Bob'' < 0 \<and> 0 < localeCompare demo ''Bob'' ''alice'' \<and>
   map fst (sortedRecipients_encrypt demo
              [\<lparr>nickname = ''Bob'', mpSecretKey = Some alice_bob_key\<rparr>,
               \<lparr>nickname = ''alice'', mpSecretKey = Some alice_carol_key\<rparr>]) = [''alice'', ''Bob''] \<and>
   sortedRecipients_decrypt
     (msg_text (build_envelope demo (bytes_wa [])
        (sortedRecipients_encrypt demo
           [\<lparr>nickname = ''Bob'', mpSecretKey = Some alice_bob_key\<rparr>,
            \<lparr>nickname = ''alice'', mpSecretKey = Some alice_carol_key\<rparr>])
        [''ABCDEFGHIJKL'', ''MNOPQRSTUVWX''])) = [''Bob'', ''alice'']"
proof -
  have 1: "localeCompare demo ''alice'' ''Bob'' < 0"
    by (simp add: demo_compare_alice_Bob)
  have 2: "0 < localeCompare demo ''Bob'' ''alice''"
    by (simp add: demo_compare_alice_Bob)
  from sort_orders_disagree[OF 1 2, of alice_bob_key alice_carol_key "bytes_wa []"
      "''ABCDEFGHIJKL''" "''MNOPQRSTUVWX''"] 1 2
  show ?thesis by blast
qed

section \<open>Tampering: what the MAC and the tag cover\<close>

lemma wa_bytes_fold_hmacInput_step:
  "wa_bytes (fold (hmacInput_step p) es h0) = wa_bytes h0 @ mac_bytes p es"
  by (induction es arbitrary: h0) (simp_all add: mac_bytes_def hmacInput_step_def Base64_parse_def)

lemma HMAC_mac_of: "HMAC p h k = mac_of p k (wa_bytes h)"
  by (simp add: HMAC_def mac_of_def)

lemma SHA512_bytes: "SHA512 p (bytes_wa (wa_bytes m)) = SHA512 p m"
  by (simp add: SHA512_def)

lemma createMessageTag_tag_of: "createMessageTag p mt = tag_of p (wa_bytes mt)"
proof -
  have "(SHA512 p ^^ 8) mt = (SHA512 p ^^ 7) (SHA512 p mt)"
    by (simp add: numeral_eq_Suc funpow_swap1)
  also have "\<dots> = (SHA512 p ^^ 7) (SHA512 p (bytes_wa (wa_bytes mt)))"
    by (simp add: SHA512_bytes)
  also have "\<dots> = (SHA512 p ^^ 8) (bytes_wa (wa_bytes mt))"
    by (simp add: numeral_eq_Suc funpow_swap1)
  finally show ?thesis
    by (simp add: createMessageTag_def tag_of_def)
qed

lemma messageTag_decrypt_bytes:
  assumes "distinct (map fst tx)" and "set es \<subseteq> set tx"
    and "\<forall>ne \<in> set es. hmac (snd ne) \<noteq> None"
  shows "\<exists>mt. messageTag_decrypt p tx (map fst es) t0 = Some mt \<and>
              wa_bytes mt = wa_bytes t0 @ tag_bytes p es"
  using assms(2,3)
proof (induction es arbitrary: t0)
  case Nil
  show ?case by (simp add: tag_bytes_def)
next
  case (Cons ne es)
  have m: "map_of tx (fst ne) = Some (snd ne)"
    using assms(1) Cons.prems by (intro map_of_distinct_mem) auto
  obtain h where h: "hmac (snd ne) = Some h"
    using Cons.prems by auto
  from Cons.IH[of "wa_concat t0 (Base64_parse p h)"] Cons.prems
  obtain mt where "messageTag_decrypt p tx (map fst es) (wa_concat t0 (Base64_parse p h)) = Some mt"
    "wa_bytes mt = wa_bytes (wa_concat t0 (Base64_parse p h)) @ tag_bytes p es"
    by auto
  then show ?case
    by (simp add: m h tag_bytes_def Base64_parse_def)
qed

lemma hmacInput_decrypt_bytes:
  assumes "distinct (map fst tx)" and "sorted (map fst tx)"
  shows "wa_bytes (hmacInput_decrypt p tx (sortedRecipients_decrypt tx) (WordArray_create [])) =
         mac_bytes p tx"
proof -
  have "sortedRecipients_decrypt tx = map fst tx"
    using assms(2) unfolding sortedRecipients_decrypt_def by (rule sorted_sort_id)
  moreover have "wa_bytes (WordArray_create []) = []"
    by (simp add: wa_bytes_def WordArray_create_def)
  ultimately show ?thesis
    using hmacInput_decrypt_fold[OF assms(1) subset_refl, of p "WordArray_create []"]
      wa_bytes_fold_hmacInput_step[of p tx "WordArray_create []"]
    by simp
qed

lemma decrypt_sorted:
  assumes d: "distinct (map fst (msg_text msg))"
    and s: "sorted (map fst (msg_text msg))"
    and mine: "map_of (msg_text msg) me = Some mine"
    and key: "mpSecretKey sender = Some key"
    and mac: "hmac mine = Some mac"
    and allh: "\<forall>ne \<in> set (msg_text msg). hmac (snd ne) \<noteq> None"
  shows "decrypt p me possible msg sender used =
     (if mac \<noteq> mac_of p (secret_hmac key) (mac_bytes p (msg_text msg))
      then (Inl (AuthenticationFailure (nickname sender)), used)
      else if iv mine \<in> set used then (Inl (ReplayDetected (nickname sender)), used)
      else if sigBytes (decryptAES p (message mine) (secret_message key) (iv mine)) < 64
      then (Inl (InvalidPlaintextSize (nickname sender)), used @ [iv mine])
      else if tag_of p (wa_bytes (decryptAES p (message mine) (secret_message key) (iv mine)) @
                        tag_bytes p (msg_text msg)) \<noteq> tag msg
      then (Inl (TagFailure (nickname sender)), used @ [iv mine])
      else (case utf8_stringify p
                  (wa_bytes (WordArray_create_sig
                     (words (decryptAES p (message mine) (secret_message key) (iv mine)))
                     (sigBytes (decryptAES p (message mine) (secret_message key) (iv mine)) - 64))) of
              None \<Rightarrow> (Inr (ReturnedString []), used @ [iv mine])
            | Some s \<Rightarrow>
                (Inr (ReturnedObject s
                   (filter (\<lambda>r. r \<noteq> nickname sender \<and> r \<notin> fst ` set (msg_text msg)) possible)),
                 used @ [iv mine])))"
proof -
  let ?tx = "msg_text msg"
  let ?P = "decryptAES p (message mine) (secret_message key) (iv mine)"
  have srt: "sortedRecipients_decrypt ?tx = map fst ?tx"
    using s unfolding sortedRecipients_decrypt_def by (rule sorted_sort_id)
  have h: "HMAC p (hmacInput_decrypt p ?tx (map fst ?tx) (WordArray_create []))
             (secret_hmac key) = mac_of p (secret_hmac key) (mac_bytes p ?tx)"
    using hmacInput_decrypt_bytes[OF d s, of p] by (simp add: HMAC_mac_of srt)
  obtain mt where mt: "messageTag_decrypt p ?tx (map fst ?tx) ?P = Some mt"
    "wa_bytes mt = wa_bytes ?P @ tag_bytes p ?tx"
    using messageTag_decrypt_bytes[OF d subset_refl allh] by blast
  have t: "createMessageTag p mt = tag_of p (wa_bytes ?P @ tag_bytes p ?tx)"
    by (simp add: createMessageTag_tag_of mt(2))
  show ?thesis
    unfolding decrypt_unfold[OF mine key mac] srt h mt(1) by (simp add: t)
qed

lemma map_fst_map_entry [simp]: "map fst (AList.map_entry k f xs) = map fst xs"
  by (induction xs) auto

lemma map_entry_split:
  assumes "distinct (map fst tx)" and "map_of tx x = Some ex"
  shows "\<exists>pre post. tx = pre @ (x, ex) # post \<and> AList.map_entry x f tx = pre @ (x, f ex) # post"
proof -
  have "(x, ex) \<in> set tx" using assms(2) by (rule map_of_SomeD)
  then obtain pre post where sp: "tx = pre @ (x, ex) # post"
    by (auto dest: split_list)
  have "x \<notin> fst ` set pre"
    using assms(1) unfolding sp by auto
  then have "AList.map_entry x f tx = pre @ (x, f ex) # post"
    unfolding sp by (rule map_entry_here)
  with sp show ?thesis by blast
qed

lemma mac_bytes_tamper:
  assumes "distinct (map fst tx)" and "map_of tx x = Some ex"
  shows "mac_bytes p (AList.map_entry x f tx) = mac_bytes p tx \<longleftrightarrow>
         base64_parse p (message (f ex)) @ base64_parse p (iv (f ex)) =
         base64_parse p (message ex) @ base64_parse p (iv ex)"
proof -
  from map_entry_split[OF assms, of f] obtain pre post where
    "tx = pre @ (x, ex) # post" "AList.map_entry x f tx = pre @ (x, f ex) # post"
    by blast
  then show ?thesis
    by (simp add: mac_bytes_def)
qed

lemma tag_bytes_tamper:
  assumes "distinct (map fst tx)" and "map_of tx x = Some ex"
    and "hmac ex = Some h" and "hmac (f ex) = Some h'"
  shows "tag_bytes p (AList.map_entry x f tx) = tag_bytes p tx \<longleftrightarrow>
         base64_parse p h' = base64_parse p h"
proof -
  from map_entry_split[OF assms(1,2), of f] obtain pre post where
    "tx = pre @ (x, ex) # post" "AList.map_entry x f tx = pre @ (x, f ex) # post"
    by blast
  then show ?thesis
    by (simp add: tag_bytes_def assms(3,4))
qed

lemma map_of_tamper:
  "map_of (AList.map_entry x f tx) n =
     (if n = x then map_option f (map_of tx x) else map_of tx n)"
  by (induction tx) auto

lemma set_map_entry:
  "ne \<in> set (AList.map_entry x f tx) \<Longrightarrow>
   ne \<in> set tx \<or> (\<exists>e. (x, e) \<in> set tx \<and> ne = (x, f e))"
  by (induction tx) (auto split: if_splits)

lemma built_keys:
  "length rs = length ivs \<Longrightarrow> map fst (msg_text (build_envelope p pt rs ivs)) = map fst rs"
  by (simp add: build_envelope_def map_fst_map2_final_entry del: map_map)

lemma built_mac_bytes:
  assumes "length rs = length ivs"
  shows "wa_bytes (hmacInput_of p pt rs ivs) = mac_bytes p (msg_text (build_envelope p pt rs ivs))"
proof -
  have "wa_bytes (WordArray_create []) = []"
    by (simp add: wa_bytes_def WordArray_create_def)
  then show ?thesis
    using fold_hmacInput_step_final[OF assms, of p pt "hmacInput_of p pt rs ivs" "WordArray_create []"]
      wa_bytes_fold_hmacInput_step[of p "msg_text (build_envelope p pt rs ivs)" "WordArray_create []"]
    by (simp add: build_envelope_def hmacInput_of_def)
qed

lemma built_entries:
  assumes len: "length rs = length ivs"
    and ne: "ne \<in> set (msg_text (build_envelope p pt rs ivs))"
  shows "\<exists>key. (fst ne, key) \<in> set rs \<and>
           hmac (snd ne) = Some (mac_of p (secret_hmac key)
                                   (mac_bytes p (msg_text (build_envelope p pt rs ivs)))) \<and>
           message (snd ne) = encryptAES p pt (secret_message key) (iv (snd ne))"
proof -
  from ne obtain r v where rv: "(r, v) \<in> set (zip rs ivs)"
    and e: "ne = final_entry p pt (hmacInput_of p pt rs ivs) r v"
    by (auto simp: build_envelope_def)
  have "r \<in> set rs" using rv by (rule set_zip_leftD)
  then have "(fst ne, snd r) \<in> set rs" by (simp add: e)
  moreover have "hmac (snd ne) = Some (mac_of p (secret_hmac (snd r))
                                   (mac_bytes p (msg_text (build_envelope p pt rs ivs))))"
    by (simp add: e final_entry_def HMAC_mac_of built_mac_bytes[OF len])
  moreover have "message (snd ne) = encryptAES p pt (secret_message (snd r)) (iv (snd ne))"
    by (simp add: e final_entry_def)
  ultimately show ?thesis by blast
qed

lemma built_tag:
  assumes len: "length rs = length ivs" and d: "distinct (map fst rs)"
  shows "tag (build_envelope p pt rs ivs) =
         tag_of p (wa_bytes pt @ tag_bytes p (msg_text (build_envelope p pt rs ivs)))"
proof -
  let ?env = "build_envelope p pt rs ivs"
  let ?h = "hmacInput_of p pt rs ivs"
  have tx: "msg_text ?env = map2 (final_entry p pt ?h) rs ivs"
    by (simp add: build_envelope_def)
  have keys: "map fst (msg_text ?env) = map fst rs"
    using len by (rule built_keys)
  have dk: "distinct (map fst (msg_text ?env))"
    using d unfolding keys .
  have allh: "\<forall>ne \<in> set (msg_text ?env). hmac (snd ne) \<noteq> None"
    using built_entries[OF len] by fastforce
  have 1: "messageTag_decrypt p (msg_text ?env) (map fst rs) pt = Some (fold (tag_step p ?h) rs pt)"
    using messageTag_decrypt_fold[OF dk[unfolded tx] len subset_refl, of pt] by (simp only: tx)
  obtain mt where 2: "messageTag_decrypt p (msg_text ?env) (map fst (msg_text ?env)) pt = Some mt"
    "wa_bytes mt = wa_bytes pt @ tag_bytes p (msg_text ?env)"
    using messageTag_decrypt_bytes[OF dk subset_refl allh] by blast
  have "wa_bytes (fold (tag_step p ?h) rs pt) = wa_bytes pt @ tag_bytes p (msg_text ?env)"
    using 1 2 unfolding keys by simp
  then show ?thesis
    by (simp add: build_envelope_def createMessageTag_tag_of)
qed

lemma honest_entry:
  assumes ents: "\<forall>ne \<in> set (msg_text env). \<exists>key. (fst ne, key) \<in> set rs \<and>
           hmac (snd ne) = Some (mac_of p (secret_hmac key) (mac_bytes p (msg_text env))) \<and>
           message (snd ne) = encryptAES p pt (secret_message key) (iv (snd ne))"
    and drs: "distinct (map fst rs)"
    and r: "(n, key) \<in> set rs"
    and er: "map_of (msg_text env) n = Some er"
  shows "hmac er = Some (mac_of p (secret_hmac key) (mac_bytes p (msg_text env))) \<and>
         message er = encryptAES p pt (secret_message key) (iv er)"
proof -
  have "(n, er) \<in> set (msg_text env)" using er by (rule map_of_SomeD)
  with ents obtain key' where k: "(n, key') \<in> set rs"
    "hmac er = Some (mac_of p (secret_hmac key') (mac_bytes p (msg_text env)))"
    "message er = encryptAES p pt (secret_message key') (iv er)"
    by fastforce
  have "key' = key"
    using drs k(1) r by (meson eq_key_imp_eq_value)
  with k show ?thesis by simp
qed

lemma tamper_block_detected:
  assumes dk: "distinct (map fst (msg_text env))" and sk: "sorted (map fst (msg_text env))"
    and ents: "\<forall>ne \<in> set (msg_text env). \<exists>key. (fst ne, key) \<in> set rs \<and>
           hmac (snd ne) = Some (mac_of p (secret_hmac key) (mac_bytes p (msg_text env))) \<and>
           message (snd ne) = encryptAES p pt (secret_message key) (iv (snd ne))"
    and drs: "distinct (map fst rs)"
    and r: "(n, key) \<in> set rs"
    and er: "map_of (msg_text env) n = Some er"
    and sender: "mpSecretKey sender = Some key"
    and ex: "map_of (msg_text env) x = Some ex"
    and f: "\<And>e. hmac (f e) = hmac e"
    and chg: "base64_parse p (message (f ex)) @ base64_parse p (iv (f ex)) \<noteq>
              base64_parse p (message ex) @ base64_parse p (iv ex)"
    and nc: "no_collision (mac_of p (secret_hmac key)) (mac_bytes p (msg_text env))
               (mac_bytes p (msg_text (tamper x f env)))"
  shows "decrypt p n possible (tamper x f env) sender used =
           (Inl (AuthenticationFailure (nickname sender)), used)"
proof -
  let ?tx = "msg_text env"
  let ?env' = "tamper x f env"
  have tx': "msg_text ?env' = AList.map_entry x f ?tx"
    by (simp add: tamper_def)
  have dk': "distinct (map fst (msg_text ?env'))" and sk': "sorted (map fst (msg_text ?env'))"
    using dk sk by (simp_all add: tx')
  obtain mine where mine: "map_of (msg_text ?env') n = Some mine" and hm: "hmac mine = hmac er"
  proof (cases "n = x")
    case True
    then have "map_of (msg_text ?env') n = Some (f ex)" "hmac (f ex) = hmac er"
      using er ex f by (simp_all add: tx' map_of_tamper)
    then show ?thesis by (rule that)
  next
    case False
    then have "map_of (msg_text ?env') n = Some er"
      using er by (simp add: tx' map_of_tamper)
    then show ?thesis by (rule that) simp
  qed
  have mac: "hmac mine = Some (mac_of p (secret_hmac key) (mac_bytes p ?tx))"
    using honest_entry[OF ents drs r er] hm by simp
  have allh: "\<forall>ne \<in> set (msg_text ?env'). hmac (snd ne) \<noteq> None"
  proof
    fix ne assume "ne \<in> set (msg_text ?env')"
    then have "ne \<in> set ?tx \<or> (\<exists>e. (x, e) \<in> set ?tx \<and> ne = (x, f e))"
      unfolding tx' by (rule set_map_entry)
    then show "hmac (snd ne) \<noteq> None"
      using ents f by fastforce
  qed
  have "mac_bytes p (msg_text ?env') \<noteq> mac_bytes p ?tx"
    unfolding tx' using mac_bytes_tamper[OF dk ex, of p f] chg by simp
  then have "mac_of p (secret_hmac key) (mac_bytes p ?tx) \<noteq>
             mac_of p (secret_hmac key) (mac_bytes p (msg_text ?env'))"
    using nc by (auto simp: no_collision_def)
  then show ?thesis
    unfolding decrypt_sorted[OF dk' sk' mine sender mac allh] by simp
qed

lemma tamper_mac_detected:
  assumes dk: "distinct (map fst (msg_text env))" and sk: "sorted (map fst (msg_text env))"
    and ents: "\<forall>ne \<in> set (msg_text env). \<exists>key. (fst ne, key) \<in> set rs \<and>
           hmac (snd ne) = Some (mac_of p (secret_hmac key) (mac_bytes p (msg_text env))) \<and>
           message (snd ne) = encryptAES p pt (secret_message key) (iv (snd ne))"
    and drs: "distinct (map fst rs)"
    and tg: "tag env = tag_of p (wa_bytes pt @ tag_bytes p (msg_text env))"
    and r: "(n, key) \<in> set rs"
    and er: "map_of (msg_text env) n = Some er"
    and sender: "mpSecretKey sender = Some key"
    and ex: "map_of (msg_text env) x = Some ex"
    and hx: "hmac ex = Some h"
    and chg: "base64_parse p s \<noteq> base64_parse p h"
    and aes: "\<And>m k c. aes_decrypt p (aes_encrypt p m k c) k c = m"
    and size: "64 \<le> sigBytes pt"
  shows "(n = x \<longrightarrow>
            decrypt p n possible (tamper x (\<lambda>e. e\<lparr>hmac := Some s\<rparr>) env) sender used =
              (Inl (AuthenticationFailure (nickname sender)), used)) \<and>
         (n \<noteq> x \<longrightarrow> iv er \<in> set used \<longrightarrow>
            decrypt p n possible (tamper x (\<lambda>e. e\<lparr>hmac := Some s\<rparr>) env) sender used =
              (Inl (ReplayDetected (nickname sender)), used)) \<and>
         (n \<noteq> x \<longrightarrow> iv er \<notin> set used \<longrightarrow>
            no_collision (tag_of p) (wa_bytes pt @ tag_bytes p (msg_text env))
              (wa_bytes pt @ tag_bytes p (msg_text (tamper x (\<lambda>e. e\<lparr>hmac := Some s\<rparr>) env))) \<longrightarrow>
            decrypt p n possible (tamper x (\<lambda>e. e\<lparr>hmac := Some s\<rparr>) env) sender used =
              (Inl (TagFailure (nickname sender)), used @ [iv er]))"
proof -
  let ?tx = "msg_text env"
  let ?f = "\<lambda>e. e\<lparr>hmac := Some s\<rparr>"
  let ?env' = "tamper x ?f env"
  have tx': "msg_text ?env' = AList.map_entry x ?f ?tx"
    by (simp add: tamper_def)
  have tg': "tag ?env' = tag env"
    by (simp add: tamper_def)
  have dk': "distinct (map fst (msg_text ?env'))" and sk': "sorted (map fst (msg_text ?env'))"
    using dk sk by (simp_all add: tx')
  have allh0: "\<forall>ne \<in> set ?tx. hmac (snd ne) \<noteq> None"
    using ents by fastforce
  have allh: "\<forall>ne \<in> set (msg_text ?env'). hmac (snd ne) \<noteq> None"
  proof
    fix ne assume "ne \<in> set (msg_text ?env')"
    then have "ne \<in> set ?tx \<or> (\<exists>e. (x, e) \<in> set ?tx \<and> ne = (x, ?f e))"
      unfolding tx' by (rule set_map_entry)
    then show "hmac (snd ne) \<noteq> None"
      using allh0 by fastforce
  qed
  have mb: "mac_bytes p (msg_text ?env') = mac_bytes p ?tx"
    unfolding tx' using mac_bytes_tamper[OF dk ex, of p ?f] by simp
  note he = honest_entry[OF ents drs r er]
  show ?thesis
  proof (cases "n = x")
    case True
    then have "er = ex" using er ex by simp
    have mine: "map_of (msg_text ?env') n = Some (?f ex)"
      using ex True by (simp add: tx' map_of_tamper)
    have mac: "hmac (?f ex) = Some s" by simp
    have "h = mac_of p (secret_hmac key) (mac_bytes p ?tx)"
      using he hx \<open>er = ex\<close> by simp
    then have "s \<noteq> mac_of p (secret_hmac key) (mac_bytes p (msg_text ?env'))"
      using chg mb by auto
    then show ?thesis
      unfolding decrypt_sorted[OF dk' sk' mine sender mac allh] using True by simp
  next
    case False
    have mine: "map_of (msg_text ?env') n = Some er"
      using er False by (simp add: tx' map_of_tamper)
    have mac: "hmac er = Some (mac_of p (secret_hmac key) (mac_bytes p ?tx))"
      using he by simp
    have dec: "decryptAES p (message er) (secret_message key) (iv er) = bytes_wa (wa_bytes pt)"
      using he by (simp add: decryptAES_def encryptAES_def aes)
    have sz: "\<not> sigBytes (bytes_wa (wa_bytes pt)) < 64"
      using size by simp
    have tb: "tag_bytes p (msg_text ?env') \<noteq> tag_bytes p ?tx"
      unfolding tx' using tag_bytes_tamper[OF dk ex hx, of ?f s p] chg by simp
    have nc: "tag_of p (wa_bytes pt @ tag_bytes p (msg_text ?env')) \<noteq>
              tag_of p (wa_bytes pt @ tag_bytes p ?tx)"
      if "no_collision (tag_of p) (wa_bytes pt @ tag_bytes p ?tx)
            (wa_bytes pt @ tag_bytes p (msg_text ?env'))"
      using that tb by (auto simp: no_collision_def)
    show ?thesis
      unfolding decrypt_sorted[OF dk' sk' mine sender mac allh] dec
      using False sz nc by (simp add: mb tg' tg)
  qed
qed

lemma tamper_encrypt:
  assumes enc: "encrypt p plaintext recipients used g = Some (env, used', g')"
    and dist: "distinct (map fst (resolved recipients))"
    and ord: "sorted (map fst (sortedRecipients_encrypt p recipients))"
    and aes: "\<forall>m k c. aes_decrypt p (aes_encrypt p m k c) k c = m"
    and rnd: "length (fst (random_bytes p 64 g)) = 64"
    and r: "r \<in> set recipients" and key: "mpSecretKey r = Some key"
    and sender: "mpSecretKey sender = Some key"
    and er: "map_of (msg_text env) (nickname r) = Some er"
    and ex: "map_of (msg_text env) x = Some ex"
    and hx: "hmac ex = Some h"
  shows "(base64_parse p s \<noteq> base64_parse p (message ex) \<longrightarrow>
            no_collision (mac_of p (secret_hmac key)) (mac_bytes p (msg_text env))
              (mac_bytes p (msg_text (tamper x (\<lambda>e. e\<lparr>message := s\<rparr>) env))) \<longrightarrow>
            decrypt p (nickname r) possible (tamper x (\<lambda>e. e\<lparr>message := s\<rparr>) env) sender used_r =
              (Inl (AuthenticationFailure (nickname sender)), used_r)) \<and>
         (base64_parse p s \<noteq> base64_parse p (iv ex) \<longrightarrow>
            no_collision (mac_of p (secret_hmac key)) (mac_bytes p (msg_text env))
              (mac_bytes p (msg_text (tamper x (\<lambda>e. e\<lparr>iv := s\<rparr>) env))) \<longrightarrow>
            decrypt p (nickname r) possible (tamper x (\<lambda>e. e\<lparr>iv := s\<rparr>) env) sender used_r =
              (Inl (AuthenticationFailure (nickname sender)), used_r)) \<and>
         (base64_parse p s \<noteq> base64_parse p h \<longrightarrow>
            (nickname r = x \<longrightarrow>
               decrypt p (nickname r) possible (tamper x (\<lambda>e. e\<lparr>hmac := Some s\<rparr>) env) sender used_r =
                 (Inl (AuthenticationFailure (nickname sender)), used_r)) \<and>
            (nickname r \<noteq> x \<longrightarrow> iv er \<in> set used_r \<longrightarrow>
               decrypt p (nickname r) possible (tamper x (\<lambda>e. e\<lparr>hmac := Some s\<rparr>) env) sender used_r =
                 (Inl (ReplayDetected (nickname sender)), used_r)) \<and>
            (nickname r \<noteq> x \<longrightarrow> iv er \<notin> set used_r \<longrightarrow>
               no_collision (tag_of p)
                 (wa_bytes (padded_plaintext p plaintext g) @ tag_bytes p (msg_text env))
                 (wa_bytes (padded_plaintext p plaintext g) @
                    tag_bytes p (msg_text (tamper x (\<lambda>e. e\<lparr>hmac := Some s\<rparr>) env))) \<longrightarrow>
               decrypt p (nickname r) possible (tamper x (\<lambda>e. e\<lparr>hmac := Some s\<rparr>) env) sender used_r =
                 (Inl (TagFailure (nickname sender)), used_r @ [iv er])))"
proof -
  let ?rs = "sortedRecipients_encrypt p recipients"
  let ?pt = "padded_plaintext p plaintext g"
  from encrypt_built[OF enc dist] obtain ivs where
    len: "length ?rs = length ivs" and env: "env = build_envelope p ?pt ?rs ivs"
    by blast
  have drs: "distinct (map fst ?rs)"
    using dist by (simp add: sortedRecipients_encrypt_def)
  have keys: "map fst (msg_text env) = map fst ?rs"
    unfolding env using len by (rule built_keys)
  have dk: "distinct (map fst (msg_text env))" and sk: "sorted (map fst (msg_text env))"
    using drs ord unfolding keys by simp_all
  have ents: "\<forall>ne \<in> set (msg_text env). \<exists>key. (fst ne, key) \<in> set ?rs \<and>
           hmac (snd ne) = Some (mac_of p (secret_hmac key) (mac_bytes p (msg_text env))) \<and>
           message (snd ne) = encryptAES p ?pt (secret_message key) (iv (snd ne))"
    unfolding env using built_entries[OF len] by blast
  have tg: "tag env = tag_of p (wa_bytes ?pt @ tag_bytes p (msg_text env))"
    unfolding env using len drs by (rule built_tag)
  have mem: "(nickname r, key) \<in> set ?rs"
    using r key by (auto simp: sortedRecipients_encrypt_def set_resolved)
  have size: "64 \<le> sigBytes ?pt"
    using rnd wa_bytes_padded_plaintext[of p plaintext g] length_wa_bytes[of ?pt] by simp
  have a: "aes_decrypt p (aes_encrypt p m k c) k c = m" for m k c
    using aes by simp
  have A: "decrypt p (nickname r) possible (tamper x (\<lambda>e. e\<lparr>message := s\<rparr>) env) sender used_r =
              (Inl (AuthenticationFailure (nickname sender)), used_r)"
    if "base64_parse p s \<noteq> base64_parse p (message ex)"
      "no_collision (mac_of p (secret_hmac key)) (mac_bytes p (msg_text env))
              (mac_bytes p (msg_text (tamper x (\<lambda>e. e\<lparr>message := s\<rparr>) env)))"
    using that by (intro tamper_block_detected[OF dk sk ents drs mem er sender ex]) simp_all
  have B: "decrypt p (nickname r) possible (tamper x (\<lambda>e. e\<lparr>iv := s\<rparr>) env) sender used_r =
              (Inl (AuthenticationFailure (nickname sender)), used_r)"
    if "base64_parse p s \<noteq> base64_parse p (iv ex)"
      "no_collision (mac_of p (secret_hmac key)) (mac_bytes p (msg_text env))
              (mac_bytes p (msg_text (tamper x (\<lambda>e. e\<lparr>iv := s\<rparr>) env)))"
    using that by (intro tamper_block_detected[OF dk sk ents drs mem er sender ex]) simp_all
  note C = tamper_mac_detected[OF dk sk ents drs tg mem er sender ex hx _ a size, of s possible used_r]
  show ?thesis
    using A B C by blast
qed

subsection \<open>The stand-ins notice a changed byte\<close>

lemma checksum_sum: "checksum bs = sum_list bs"
  by (simp add: checksum_def fold_plus_sum_list_rev)

lemma checksum_demo_sha512: "checksum (demo_sha512 m) = checksum m"
  by (simp add: checksum_sum demo_sha512_def sum_list_replicate)

lemma demo_sha512_idem: "demo_sha512 (demo_sha512 m) = demo_sha512 m"
  using checksum_demo_sha512[of m] by (simp add: demo_sha512_def)

lemma SHA512_demo: "SHA512 demo (bytes_wa m) = bytes_wa (demo_sha512 m)"
  by (simp add: SHA512_def)

lemma SHA512_demo_funpow: "(SHA512 demo ^^ Suc n) (bytes_wa m) = bytes_wa (demo_sha512 m)"
  by (induction n) (simp_all add: SHA512_demo demo_sha512_idem)

lemma tag_of_demo: "tag_of demo m = bytes_string (demo_sha512 m)"
  using SHA512_demo_funpow[of 7 m]
  by (simp add: tag_of_def createMessageTag_def Base64_stringify_def numeral_eq_Suc)

lemma tag_of_demo_eq: "tag_of demo a = tag_of demo b \<longleftrightarrow> checksum a = checksum b"
  by (simp add: tag_of_demo demo_sha512_def)

lemma checksum_bump_first: "bs \<noteq> [] \<Longrightarrow> checksum (bump_first bs) \<noteq> checksum bs"
  by (cases bs) (simp_all add: bump_first_def checksum_sum)

lemma checksum_tag_bytes_tamper:
  assumes "distinct (map fst tx)" and "map_of tx x = Some ex"
    and "hmac ex = Some h" and "hmac (f ex) = Some h'"
  shows "checksum (wa @ tag_bytes p (AList.map_entry x f tx)) = checksum (wa @ tag_bytes p tx) \<longleftrightarrow>
         checksum (base64_parse p h') = checksum (base64_parse p h)"
proof -
  from map_entry_split[OF assms(1,2), of f] obtain pre post where
    "tx = pre @ (x, ex) # post" "AList.map_entry x f tx = pre @ (x, f ex) # post"
    by blast
  then show ?thesis
    by (simp add: tag_bytes_def assms(3,4) checksum_sum)
qed

lemma encrypt_entry:
  assumes enc: "encrypt p s recipients used g = Some (env, used', g')"
    and dist: "distinct (map fst (resolved recipients))"
    and mem: "(name, key) \<in> set (resolved recipients)"
  shows "\<exists>e. map_of (msg_text env) name = Some e \<and>
              hmac e = Some (mac_of p (secret_hmac key) (mac_bytes p (msg_text env)))"
proof -
  let ?rs = "sortedRecipients_encrypt p recipients"
  from encrypt_built[OF enc dist] obtain ivs where
    len: "length ?rs = length ivs"
    and env: "env = build_envelope p (padded_plaintext p s g) ?rs ivs"
    by blast
  have drs: "distinct (map fst ?rs)"
    using dist by (simp add: sortedRecipients_encrypt_def)
  have keys: "map fst (msg_text env) = map fst ?rs"
    unfolding env using len by (rule built_keys)
  have m: "(name, key) \<in> set ?rs"
    using mem by (simp add: sortedRecipients_encrypt_def)
  then have "name \<in> fst ` set (msg_text env)"
    using keys by (metis image_eqI fst_conv set_map)
  then obtain e where e: "map_of (msg_text env) name = Some e"
    by (metis map_of_eq_None_iff not_Some_eq)
  have ents: "\<forall>ne \<in> set (msg_text env). \<exists>key. (fst ne, key) \<in> set ?rs \<and>
           hmac (snd ne) = Some (mac_of p (secret_hmac key) (mac_bytes p (msg_text env))) \<and>
           message (snd ne) = encryptAES p (padded_plaintext p s g) (secret_message key) (iv (snd ne))"
    unfolding env using built_entries[OF len] by blast
  from honest_entry[OF ents drs m e] e show ?thesis by blast
qed

lemma demo_enc: "encrypt demo ''hi'' [carol, bob] [] 0 = Some (demo_envelope, demo_used, demo_gen)"
  using demo_run_Some by (simp add: demo_run_def)

lemma demo_dist: "distinct (map fst (resolved [carol, bob]))"
  by (simp add: resolved_demo)

lemma demo_sorted: "sorted (map fst (sortedRecipients_encrypt demo [carol, bob]))"
  by (simp add: sorted_demo sorted_bob_carol del: sorted_wrt.simps sorted2)

lemma demo_carol_entry:
  "\<exists>e. map_of (msg_text demo_envelope) ''carol'' = Some e \<and> hmac e = Some carol_mac \<and>
        string_bytes carol_mac \<noteq> []"
proof -
  have mem: "(''carol'', alice_carol_key) \<in> set (resolved [carol, bob])"
    by (simp add: resolved_demo)
  from encrypt_entry[OF demo_enc demo_dist mem] obtain e where
    e: "map_of (msg_text demo_envelope) ''carol'' = Some e"
    "hmac e = Some (mac_of demo (secret_hmac alice_carol_key) (mac_bytes demo (msg_text demo_envelope)))"
    by blast
  have c: "carol_mac = mac_of demo (secret_hmac alice_carol_key) (mac_bytes demo (msg_text demo_envelope))"
    by (simp add: carol_mac_def e)
  have "string_bytes carol_mac \<noteq> []"
    by (simp add: c mac_of_def demo_hmac_def demo_sha512_def)
  with e c show ?thesis by simp
qed

lemma demo_tampered_mac:
  "base64_parse demo tampered_mac \<noteq> base64_parse demo carol_mac \<and>
   checksum (base64_parse demo tampered_mac) \<noteq> checksum (base64_parse demo carol_mac) \<and>
   drop 1 (base64_parse demo tampered_mac) = drop 1 (base64_parse demo carol_mac)"
proof -
  from demo_carol_entry have ne: "string_bytes carol_mac \<noteq> []" by blast
  then have "checksum (bump_first (string_bytes carol_mac)) \<noteq> checksum (string_bytes carol_mac)"
    by (rule checksum_bump_first)
  moreover have "drop 1 (bump_first (string_bytes carol_mac)) = drop 1 (string_bytes carol_mac)"
    by (cases "string_bytes carol_mac") (simp_all add: bump_first_def)
  ultimately show ?thesis
    by (auto simp: tampered_mac_def)
qed

subsection \<open>A modified entry is refused\<close>


lemma demo_bob_entry:
  "\<exists>e. map_of (msg_text demo_envelope) ''bob'' = Some e \<and> iv e \<in> set demo_used"
  using demo_bob_decrypt[of "[]"] by blast

lemma demo_aes_all: "\<forall>m k c. aes_decrypt demo (aes_encrypt demo m k c) k c = m"
  by (simp add: demo_aes)

lemma demo_rnd: "length (fst (random_bytes demo 64 0)) = 64"
  by (simp add: demo_random_def)

lemma demo_no_tag_collision:
  "no_collision (tag_of demo) (wa @ tag_bytes demo (msg_text demo_envelope))
     (wa @ tag_bytes demo (msg_text tampered_envelope))"
proof -
  from demo_carol_entry obtain ex where ex: "map_of (msg_text demo_envelope) ''carol'' = Some ex"
    "hmac ex = Some carol_mac"
    by blast
  have dk: "distinct (map fst (msg_text demo_envelope))"
  proof -
    from encrypt_built[OF demo_enc demo_dist] obtain ivs where
      "length (sortedRecipients_encrypt demo [carol, bob]) = length ivs"
      "demo_envelope = build_envelope demo (padded_plaintext demo ''hi'' 0)
         (sortedRecipients_encrypt demo [carol, bob]) ivs"
      by blast
    then have "map fst (msg_text demo_envelope) = map fst (sortedRecipients_encrypt demo [carol, bob])"
      using built_keys by metis
    then show ?thesis by (simp add: sorted_demo)
  qed
  have "checksum (wa @ tag_bytes demo (msg_text tampered_envelope)) \<noteq>
        checksum (wa @ tag_bytes demo (msg_text demo_envelope))"
    using checksum_tag_bytes_tamper[OF dk ex, of "\<lambda>e. e\<lparr>hmac := Some tampered_mac\<rparr>" tampered_mac wa demo]
      demo_tampered_mac
    by (simp add: tampered_envelope_def tamper_def)
  then show ?thesis
    by (auto simp: no_collision_def tag_of_demo_eq)
qed



end
